theory Spec2Isabelle
  imports Complex_Main "HOL-Library.Char_ord" "HOL-Library.List_Lexorder" "HOL-Library.AList"
begin

section \<open>The state-vector simulator of quantum\_simulator.py\<close>

text \<open>
  The embedding follows \<^verbatim>\<open>src/quantum_simulator.py\<close>. Amplitudes are exact complex
  numbers and probabilities exact reals: rounding of \<^verbatim>\<open>complex128\<close> is not modelled.
  A NumPy array of shape \<open>[2] * n\<close> is kept as its flat, row-major (C order) data, so
  \<^verbatim>\<open>reshape\<close> is the identity on the data and only \<^verbatim>\<open>transpose\<close> moves entries.
  Every method takes the register and returns either an error (\<open>Inl\<close>, the exception
  raised; the register the caller holds is then the one passed in) or the value returned
  together with the register after the call.
\<close>

subsection \<open>Data\<close>

datatype error = ValueError | IndexError

record circuit =
  num_qubits :: nat
  state :: "complex list"

text \<open>An \<^verbatim>\<open>np.ndarray\<close> of complex numbers: its shape and its row-major data.\<close>

record ndarray =
  shape :: "nat list"
  data :: "complex list"

record measurement_result =
  counts :: "(string \<times> int) list"

subsection \<open>MeasurementResult\<close>

text \<open>
  \<^verbatim>\<open>max(self.counts.items(), key=lambda item: (item[1], item[0]))[0]\<close>: Python compares
  the key tuples \<open>(count, bitstring)\<close> lexicographically, keeps the first maximal item and
  raises \<^verbatim>\<open>ValueError\<close> on an empty sequence.
\<close>

definition item_key_less :: "string \<times> int \<Rightarrow> string \<times> int \<Rightarrow> bool" where
  "item_key_less a b \<longleftrightarrow> snd a < snd b \<or> (snd a = snd b \<and> fst a < fst b)"

fun max_by_key :: "string \<times> int \<Rightarrow> (string \<times> int) list \<Rightarrow> string \<times> int" where
  "max_by_key best [] = best"
| "max_by_key best (x # xs) = max_by_key (if item_key_less best x then x else best) xs"

definition most_likely :: "measurement_result \<Rightarrow> error + string" where
  "most_likely r =
     (case counts r of [] \<Rightarrow> Inl ValueError | x # xs \<Rightarrow> Inr (fst (max_by_key x xs)))"

definition total_shots :: "measurement_result \<Rightarrow> int" where
  "total_shots r = sum_list (map snd (counts r))"

subsection \<open>Bit strings\<close>

definition bit_char :: "nat \<Rightarrow> char" where
  "bit_char b = (if b = 0 then CHR ''0'' else CHR ''1'')"

text \<open>The digits of \<^verbatim>\<open>format(i, "b")\<close>: no leading zero, \<open>''0''\<close> for zero.\<close>

fun bin_digits :: "nat \<Rightarrow> string" where
  "bin_digits i = (if i < 2 then [bit_char i] else bin_digits (i div 2) @ [bit_char (i mod 2)])"

declare bin_digits.simps [simp del]

text \<open>\<^verbatim>\<open>format(index, f"0{width}b")\<close>: the digits, padded on the left with zeros to \<open>width\<close>.\<close>

definition format_b :: "nat \<Rightarrow> nat \<Rightarrow> string" where
  "format_b width i = replicate (width - length (bin_digits i)) CHR ''0'' @ bin_digits i"

text \<open>
  \<^verbatim>\<open>int(bitstring, 2)\<close> on the strings the simulator builds with \<^verbatim>\<open>format\<close>: a non-empty
  string of \<open>0\<close> and \<open>1\<close>. Any other string is mapped to \<^verbatim>\<open>ValueError\<close> (Python also
  accepts a sign, a \<open>0b\<close> prefix, underscores and surrounding blanks, which \<^verbatim>\<open>format\<close>
  never emits).
\<close>

definition char_bit :: "char \<Rightarrow> nat" where
  "char_bit ch = (if ch = CHR ''1'' then 1 else 0)"

definition int_base2 :: "string \<Rightarrow> error + nat" where
  "int_base2 s =
     (if s = [] \<or> (\<exists>ch \<in> set s. ch \<noteq> CHR ''0'' \<and> ch \<noteq> CHR ''1'') then Inl ValueError
      else Inr (foldl (\<lambda>acc ch. 2 * acc + char_bit ch) 0 s))"

subsection \<open>NumPy primitives on tensors of shape \<open>[2] * n\<close>\<close>

text \<open>Row-major flat index of a multi-index, and back (\<^verbatim>\<open>np.unravel_index\<close>).\<close>

fun ravel :: "nat list \<Rightarrow> nat" where
  "ravel [] = 0"
| "ravel (b # bs) = b * 2 ^ length bs + ravel bs"

fun unravel :: "nat \<Rightarrow> nat \<Rightarrow> nat list" where
  "unravel 0 i = []"
| "unravel (Suc n) i = (i div 2 ^ n) mod 2 # unravel n i"

fun index_of :: "nat \<Rightarrow> nat list \<Rightarrow> nat" where
  "index_of a [] = 0"
| "index_of a (x # xs) = (if x = a then 0 else Suc (index_of a xs))"

text \<open>
  \<^verbatim>\<open>np.transpose(a, axes)\<close>: axis \<open>j\<close> of the result is axis \<open>axes[j]\<close> of \<open>a\<close>, so the
  entry of the result at multi-index \<open>ix\<close> is the entry of \<open>a\<close> at the multi-index whose
  component \<open>axes[j]\<close> is \<open>ix[j]\<close>; \<open>source_index n axes i\<close> is the flat index in \<open>a\<close>
  of the entry that lands at flat index \<open>i\<close>.
\<close>

definition source_index :: "nat \<Rightarrow> nat list \<Rightarrow> nat \<Rightarrow> nat" where
  "source_index n axes i = ravel (map (\<lambda>ax. unravel n i ! index_of ax axes) [0..<n])"

definition np_transpose :: "nat \<Rightarrow> 'a list \<Rightarrow> nat list \<Rightarrow> 'a list" where
  "np_transpose n a axes = map (\<lambda>i. a ! source_index n axes i) [0..<2 ^ n]"

text \<open>\<^verbatim>\<open>np.argsort\<close> of a list of distinct numbers: the positions of its entries in sorted order.\<close>

definition argsort :: "nat list \<Rightarrow> nat list" where
  "argsort xs = map (\<lambda>v. index_of v xs) (sort xs)"

text \<open>
  \<^verbatim>\<open>unitary @ reshaped\<close> for a \<open>d \<times> d\<close> matrix and a \<open>d \<times> m\<close> matrix, both as row-major
  data; the result is the row-major data of the \<open>d \<times> m\<close> product.
\<close>

definition matmul :: "nat \<Rightarrow> nat \<Rightarrow> complex list \<Rightarrow> complex list \<Rightarrow> complex list" where
  "matmul d m u x =
     map (\<lambda>i. \<Sum>j\<leftarrow>[0..<d]. u ! ((i div m) * d + j) * x ! (j * m + i mod m)) [0..<d * m]"

text \<open>
  A dict built by a comprehension, as its items in insertion order: a key met again keeps
  its place and takes the new value.
\<close>

definition dict_of_items :: "('k \<times> 'v) list \<Rightarrow> ('k \<times> 'v) list" where
  "dict_of_items xs = foldl (\<lambda>d (k, v). AList.update k v d) [] xs"

text \<open>\<^verbatim>\<open>np.isclose(a, b)\<close> with the default tolerances \<open>rtol = 1e-05\<close>, \<open>atol = 1e-08\<close>.\<close>

definition isclose :: "real \<Rightarrow> real \<Rightarrow> bool" where
  "isclose a b \<longleftrightarrow> \<bar>a - b\<bar> \<le> 1 / 10 ^ 8 + (1 / 10 ^ 5) * \<bar>b\<bar>"

subsection \<open>QuantumCircuit\<close>

definition init :: "int \<Rightarrow> error + circuit" where
  "init n =
     (if n \<le> 0 then Inl ValueError
      else Inr \<lparr>num_qubits = nat n, state = (replicate (2 ^ nat n) 0)[0 := 1]\<rparr>)"

definition normalise_qubits :: "circuit \<Rightarrow> int list option \<Rightarrow> error + nat list" where
  "normalise_qubits c qubits =
     (case qubits of
        None \<Rightarrow> Inr [0..<num_qubits c]
      | Some qubit_tuple \<Rightarrow>
          if length qubit_tuple \<noteq> length (remdups qubit_tuple) then Inl ValueError
          else if \<exists>qubit \<in> set qubit_tuple. \<not> (0 \<le> qubit \<and> qubit < int (num_qubits c))
            then Inl IndexError
          else Inr (map nat qubit_tuple))"

definition permutation_of :: "nat \<Rightarrow> nat list \<Rightarrow> nat list" where
  "permutation_of n qubit_tuple = qubit_tuple @ filter (\<lambda>i. i \<notin> set qubit_tuple) [0..<n]"

definition apply_unitary :: "circuit \<Rightarrow> ndarray \<Rightarrow> int list \<Rightarrow> error + circuit" where
  "apply_unitary c unitary qubits =
     (if length (shape unitary) \<noteq> 2 \<or> shape unitary ! 0 \<noteq> shape unitary ! 1
        then Inl ValueError
      else case normalise_qubits c (Some qubits) of
        Inl e \<Rightarrow> Inl e
      | Inr qubit_tuple \<Rightarrow>
          let expected_dimension = 2 ^ length qubit_tuple in
          if shape unitary ! 0 \<noteq> expected_dimension then Inl ValueError
          else
            let n = num_qubits c;
                permutation = permutation_of n qubit_tuple;
                tensor = np_transpose n (state c) permutation;
                updated = matmul expected_dimension (2 ^ (n - length qubit_tuple))
                            (data unitary) tensor;
                inverse_permutation = argsort permutation;
                restored = np_transpose n updated inverse_permutation
            in Inr (c\<lparr>state := restored\<rparr>))"

definition H_gate :: ndarray where
  "H_gate = \<lparr>shape = [2, 2], data = map (\<lambda>x. x / complex_of_real (sqrt 2)) [1, 1, 1, - 1]\<rparr>"

definition X_gate :: ndarray where
  "X_gate = \<lparr>shape = [2, 2], data = [0, 1, 1, 0]\<rparr>"

definition CNOT_gate :: ndarray where
  "CNOT_gate = \<lparr>shape = [4, 4], data =
     [1, 0, 0, 0,
      0, 1, 0, 0,
      0, 0, 0, 1,
      0, 0, 1, 0]\<rparr>"

definition hadamard :: "circuit \<Rightarrow> int \<Rightarrow> error + circuit" where
  "hadamard c qubit = apply_unitary c H_gate [qubit]"

definition pauli_x :: "circuit \<Rightarrow> int \<Rightarrow> error + circuit" where
  "pauli_x c qubit = apply_unitary c X_gate [qubit]"

definition cnot :: "circuit \<Rightarrow> int \<Rightarrow> int \<Rightarrow> error + circuit" where
  "cnot c control target =
     (if control = target then Inl ValueError
      else apply_unitary c CNOT_gate [control, target])"

definition apply_custom :: "circuit \<Rightarrow> ndarray \<Rightarrow> int list \<Rightarrow> error + circuit" where
  "apply_custom c unitary qubits = apply_unitary c unitary qubits"

definition distribution_from_probabilities :: "real list \<Rightarrow> nat \<Rightarrow> (string \<times> real) list" where
  "distribution_from_probabilities probs k =
     (let bitstrings = map (format_b k) [0..<2 ^ k]
      in dict_of_items (zip bitstrings probs))"

definition probabilities :: "circuit \<Rightarrow> int list option \<Rightarrow> error + (string \<times> real) list" where
  "probabilities c qubits =
     (case normalise_qubits c qubits of
        Inl e \<Rightarrow> Inl e
      | Inr qubit_tuple \<Rightarrow>
          let n = num_qubits c in
          if qubit_tuple = [] then
            Inr (dict_of_items
                   (map (\<lambda>(index, prob). (format_b n index, prob))
                        (enumerate 0 (map (\<lambda>a. (cmod a)\<^sup>2) (state c)))))
          else
            let k = length qubit_tuple;
                m = 2 ^ (n - k);
                permutation = permutation_of n qubit_tuple;
                tensor = np_transpose n (state c) permutation;
                marginal = map (\<lambda>r. \<Sum>a\<leftarrow>take m (drop (r * m) tensor). (cmod a)\<^sup>2) [0..<2 ^ k]
            in Inr (distribution_from_probabilities marginal k))"

text \<open>
  \<^verbatim>\<open>_collapse_state\<close> is called by \<^verbatim>\<open>measure\<close> with the tuple that
  \<^verbatim>\<open>_normalise_qubits\<close> returned, so its qubits are natural numbers. Indexing row
  \<open>outcome_index\<close> of the \<open>2^k\<close>-row matrix, or entry \<open>index\<close> of the vector, raises
  \<^verbatim>\<open>IndexError\<close> out of range. \<^verbatim>\<open>np.linalg.norm\<close> of a matrix is its Frobenius norm.
\<close>

definition collapse_state :: "circuit \<Rightarrow> nat list \<Rightarrow> string \<Rightarrow> error + circuit" where
  "collapse_state c qubits bitstring =
     (if qubits = [] then
        (case int_base2 bitstring of
           Inl e \<Rightarrow> Inl e
         | Inr index \<Rightarrow>
             if index < length (state c)
             then Inr (c\<lparr>state := (replicate (length (state c)) 0)[index := 1]\<rparr>)
             else Inl IndexError)
      else
        let n = num_qubits c;
            k = length qubits;
            m = 2 ^ (n - k);
            permutation = permutation_of n qubits;
            tensor = np_transpose n (state c) permutation
        in case int_base2 bitstring of
             Inl e \<Rightarrow> Inl e
           | Inr outcome_index \<Rightarrow>
               if \<not> outcome_index < 2 ^ k then Inl IndexError
               else
                 let collapsed = map (\<lambda>i. if i div m = outcome_index then tensor ! i else 0)
                                     [0..<2 ^ n];
                     norm = sqrt (\<Sum>a\<leftarrow>collapsed. (cmod a)\<^sup>2);
                     collapsed' = (if norm > 0
                                   then map (\<lambda>a. a / complex_of_real norm) collapsed
                                   else collapsed);
                     inverse_permutation = argsort permutation;
                     restored = np_transpose n collapsed' inverse_permutation
                 in Inr (c\<lparr>state := restored\<rparr>))"

text \<open>
  \<^verbatim>\<open>counts[bitstrings[index]] += 1\<close> on a dict that holds the key.
\<close>

definition bump :: "(string \<times> int) list \<Rightarrow> string \<Rightarrow> (string \<times> int) list" where
  "bump d key = AList.update key (the (map_of d key) + 1) d"

text \<open>
  The generator is a parameter: \<open>rng_choice a size p\<close> stands for
  \<^verbatim>\<open>rng.choice(a, size=size, p=p)\<close>, which either raises or returns \<open>size\<close> indices below
  \<open>a\<close>. Dividing by a zero sum yields NaN entries in NumPy, on which \<^verbatim>\<open>choice\<close> raises
  \<^verbatim>\<open>ValueError\<close>; that branch is written out, since real division by zero is zero in HOL.
\<close>

definition measure_qubits ::
  "circuit \<Rightarrow> int list option \<Rightarrow> int \<Rightarrow> (nat \<Rightarrow> nat \<Rightarrow> real list \<Rightarrow> error + nat list)
     \<Rightarrow> error + (measurement_result \<times> circuit)" where
  "measure_qubits c qubits shots rng_choice =
     (if shots \<le> 0 then Inl ValueError
      else case normalise_qubits c qubits of
        Inl e \<Rightarrow> Inl e
      | Inr qubit_tuple \<Rightarrow>
          (case probabilities c (Some (map int qubit_tuple)) of
             Inl e \<Rightarrow> Inl e
           | Inr outcome_distribution \<Rightarrow>
               let bitstrings = sort (map fst outcome_distribution);
                   probs = map (\<lambda>key. the (map_of outcome_distribution key)) bitstrings;
                   total = sum_list probs
               in if \<not> isclose total 1 \<and> total = 0 then Inl ValueError
                  else
                    let probs' = (if \<not> isclose total 1 then map (\<lambda>p. p / total) probs
                                  else probs)
                    in (case rng_choice (length bitstrings) (nat shots) probs' of
                          Inl e \<Rightarrow> Inl e
                        | Inr outcomes \<Rightarrow>
                            let counts0 = map (\<lambda>key. (key, 0)) bitstrings;
                                counts1 = foldl (\<lambda>d index. bump d (bitstrings ! index))
                                            counts0 outcomes;
                                final_outcome = bitstrings ! last outcomes
                            in (case collapse_state c qubit_tuple final_outcome of
                                  Inl e \<Rightarrow> Inl e
                                | Inr c' \<Rightarrow> Inr (\<lparr>counts = counts1\<rparr>, c')))))"

subsection \<open>Vocabulary of the statements\<close>

text \<open>
  The invariant \<^verbatim>\<open>__init__\<close> establishes and every method keeps: a positive number of
  qubits and \<open>2 ^ n\<close> amplitudes.
\<close>

definition wf_circuit :: "circuit \<Rightarrow> bool" where
  "wf_circuit c \<longleftrightarrow> 0 < num_qubits c \<and> length (state c) = 2 ^ num_qubits c"

text \<open>A tuple that \<^verbatim>\<open>_normalise_qubits\<close> accepts: distinct indices in \<open>[0, n)\<close>.\<close>

definition valid_qubits :: "nat \<Rightarrow> nat list \<Rightarrow> bool" where
  "valid_qubits n qs \<longleftrightarrow> distinct qs \<and> (\<forall>q \<in> set qs. q < n)"

text \<open>A list of \<open>n\<close> distinct axes \<open>0, \<dots>, n - 1\<close> in some order.\<close>

definition is_axes :: "nat \<Rightarrow> nat list \<Rightarrow> bool" where
  "is_axes n p \<longleftrightarrow> distinct p \<and> set p = {..<n}"

text \<open>
  The bits of basis state \<open>i\<close> of an \<open>n\<close>-qubit register at the listed qubits, qubit 0
  being the most significant bit of \<open>i\<close>.
\<close>

definition bits_at :: "nat \<Rightarrow> nat \<Rightarrow> nat list \<Rightarrow> nat list" where
  "bits_at n i qs = map (\<lambda>q. unravel n i ! q) qs"

abbreviation rest_axes :: "nat \<Rightarrow> nat list \<Rightarrow> nat list" where
  "rest_axes n qs \<equiv> filter (\<lambda>i. i \<notin> set qs) [0..<n]"

text \<open>
  The index that basis state \<open>i\<close> selects on the qubits \<open>qs\<close> (first listed qubit most
  significant) and on the remaining qubits (in ascending order).
\<close>

definition sub_index :: "nat \<Rightarrow> nat list \<Rightarrow> nat \<Rightarrow> nat" where
  "sub_index n qs i = ravel (map (\<lambda>q. unravel n i ! q) qs)"

definition rest_index :: "nat \<Rightarrow> nat list \<Rightarrow> nat \<Rightarrow> nat" where
  "rest_index n qs i = ravel (bits_at n i (rest_axes n qs))"

text \<open>Basis state \<open>i\<close> with its bits at the qubits \<open>qs\<close> replaced by the bits of \<open>j\<close>.\<close>

definition with_sub_index :: "nat \<Rightarrow> nat list \<Rightarrow> nat \<Rightarrow> nat \<Rightarrow> nat" where
  "with_sub_index n qs i j =
     ravel (map (\<lambda>a. if a \<in> set qs then unravel (length qs) j ! index_of a qs
                     else unravel n i ! a) [0..<n])"

text \<open>
  After the spec, not the code: the matrix \<open>u\<close> (row-major, \<open>2 ^ k\<close> by \<open>2 ^ k\<close>) acting
  on the qubits \<open>qs\<close> and the identity acting on all others. The new amplitude of basis
  state \<open>i\<close> is the sum over \<open>j\<close> of the entry of \<open>u\<close> in row \<open>sub_index n qs i\<close>,
  column \<open>j\<close>, times the old amplitude of the basis state that differs from \<open>i\<close> only on
  \<open>qs\<close>, where it reads \<open>j\<close>.
\<close>

definition spec_subspace_action :: "nat \<Rightarrow> nat list \<Rightarrow> complex list \<Rightarrow> complex list \<Rightarrow> complex list" where
  "spec_subspace_action n qs u v =
     map (\<lambda>i. \<Sum>j\<leftarrow>[0..<2 ^ length qs].
                 u ! (sub_index n qs i * 2 ^ length qs + j) * v ! with_sub_index n qs i j)
         [0..<2 ^ n]"

text \<open>
  The bit string of basis state \<open>i\<close> (as \<^verbatim>\<open>format\<close> prints it), read at the requested
  qubits in the requested order, spells \<open>s\<close>.
\<close>

definition agrees_on :: "nat \<Rightarrow> nat list \<Rightarrow> nat \<Rightarrow> string \<Rightarrow> bool" where
  "agrees_on n qs i s \<longleftrightarrow> map (\<lambda>q. format_b n i ! q) qs = s"

text \<open>
  After the spec, not the code: the marginal probability of the bit string \<open>s\<close> on the
  qubits \<open>qs\<close>, the sum of the squared magnitudes of the amplitudes of all basis states
  that agree with \<open>s\<close> on \<open>qs\<close>.
\<close>

definition spec_marginal :: "nat \<Rightarrow> nat list \<Rightarrow> complex list \<Rightarrow> string \<Rightarrow> real" where
  "spec_marginal n qs a s = (\<Sum>i\<leftarrow>filter (\<lambda>i. agrees_on n qs i s) [0..<2 ^ n]. (cmod (a ! i))\<^sup>2)"

text \<open>
  The marginal probability of the outcome with index \<open>r\<close> on the qubits \<open>qs\<close>: the sum of
  the squared magnitudes of the amplitudes of the basis states that select \<open>r\<close> there.
\<close>

definition marginal_at :: "nat \<Rightarrow> nat list \<Rightarrow> complex list \<Rightarrow> nat \<Rightarrow> real" where
  "marginal_at n qs a r = (\<Sum>i \<in> {i. i < 2 ^ n \<and> sub_index n qs i = r}. (cmod (a ! i))\<^sup>2)"

text \<open>
  The sum of the squared magnitudes of an amplitude vector.
\<close>

definition norm_sq :: "complex list \<Rightarrow> real" where
  "norm_sq a = (\<Sum>x\<leftarrow>a. (cmod x)\<^sup>2)"

text \<open>
  The projection of the amplitude vector onto the outcome \<open>r\<close> of the qubits \<open>qs\<close>,
  renormalised: amplitudes of basis states that select another outcome become zero, the
  others are divided by the square root of the outcome's probability.
\<close>

definition collapsed_onto :: "nat \<Rightarrow> nat list \<Rightarrow> complex list \<Rightarrow> nat \<Rightarrow> complex list" where
  "collapsed_onto n qs a r =
     map (\<lambda>i. if sub_index n qs i = r
               then a ! i / complex_of_real (sqrt (marginal_at n qs a r)) else 0) [0..<2 ^ n]"

text \<open>
  The qubits a normalised tuple stands for in \<^verbatim>\<open>probabilities\<close> and \<^verbatim>\<open>measure\<close>: the
  empty tuple takes the full-register path, that is, all qubits in ascending order.
\<close>

definition measured_axes :: "nat \<Rightarrow> nat list \<Rightarrow> nat list" where
  "measured_axes n qt = (if qt = [] then [0..<n] else qt)"

text \<open>
  What the simulator relies on from \<^verbatim>\<open>rng.choice(a, size=size, p=p)\<close>: a call that returns
  gives \<open>size\<close> indices below \<open>a\<close>, and the call returns whenever \<open>p\<close> is a probability
  vector of length \<open>a\<close> and \<open>size\<close> is positive.
\<close>

definition rng_contract :: "(nat \<Rightarrow> nat \<Rightarrow> real list \<Rightarrow> error + nat list) \<Rightarrow> bool" where
  "rng_contract rng \<longleftrightarrow>
     (\<forall>a size p outs. rng a size p = Inr outs \<longrightarrow>
        length outs = size \<and> (\<forall>x \<in> set outs. x < a)) \<and>
     (\<forall>a size p. a = length p \<and> 0 < size \<and> (\<forall>x \<in> set p. 0 \<le> x) \<and> sum_list p = 1 \<longrightarrow>
        (\<exists>outs. rng a size p = Inr outs))"

text \<open>
  A generator that always draws index 0.
\<close>

definition rng_first :: "nat \<Rightarrow> nat \<Rightarrow> real list \<Rightarrow> error + nat list" where
  "rng_first a sz p = (if a = 0 then Inl ValueError else Inr (replicate sz 0))"

text \<open>
  A \<open>d\<close> by \<open>d\<close> matrix, as row-major data, whose columns are orthonormal: the product of
  its conjugate transpose with it is the identity.
\<close>

definition is_unitary :: "nat \<Rightarrow> complex list \<Rightarrow> bool" where
  "is_unitary d u \<longleftrightarrow>
     length u = d * d \<and>
     (\<forall>j<d. \<forall>j'<d. (\<Sum>r<d. cnj (u ! (r * d + j)) * u ! (r * d + j')) = (if j = j' then 1 else 0))"

section \<open>Multi-indices\<close>

lemma length_unravel [simp]: "length (unravel n i) = n"
  by (induction n) simp_all

lemma unravel_bits: "b \<in> set (unravel n i) \<Longrightarrow> b < 2"
  by (induction n) auto

lemma unravel_nth_lt: "j < n \<Longrightarrow> unravel n i ! j < 2"
  using unravel_bits [of "unravel n i ! j" n i] by simp

lemma unravel_shift: "unravel n (i + j * 2 ^ n) = unravel n i"
proof (induction n arbitrary: j)
  case 0
  show ?case by simp
next
  case (Suc n)
  have "unravel n (i + (2 * j) * 2 ^ n) = unravel n i"
    by (rule Suc.IH)
  moreover have "(i + 2 * j * 2 ^ n) div 2 ^ n mod 2 = i div 2 ^ n mod 2"
    by simp
  ultimately show ?case
    by (simp add: mult.assoc mult.left_commute)
qed

lemma ravel_lt: "\<forall>b \<in> set bs. b < 2 \<Longrightarrow> ravel bs < 2 ^ length bs"
proof (induction bs)
  case Nil
  show ?case by simp
next
  case (Cons b bs)
  then have "b \<le> 1" and "ravel bs < 2 ^ length bs"
    by auto
  then have "b * 2 ^ length bs + ravel bs < 1 * 2 ^ length bs + 2 ^ length bs"
    by (intro add_le_less_mono mult_le_mono1) 
  then show ?case by simp
qed

lemma unravel_ravel: "\<forall>b \<in> set bs. b < 2 \<Longrightarrow> unravel (length bs) (ravel bs) = bs"
proof (induction bs)
  case Nil
  show ?case by simp
next
  case (Cons b bs)
  then have b: "b < 2" and bs: "\<forall>x \<in> set bs. x < 2"
    by auto
  have lt: "ravel bs < 2 ^ length bs"
    using bs by (rule ravel_lt)
  have "unravel (length bs) (ravel bs + b * 2 ^ length bs) = bs"
    using Cons.IH [OF bs] by (simp add: unravel_shift)
  moreover have "(b * 2 ^ length bs + ravel bs) div 2 ^ length bs mod 2 = b"
    using lt b by simp
  ultimately show ?case
    by (simp add: add.commute)
qed

lemma ravel_unravel: "ravel (unravel n i) = i mod 2 ^ n"
proof (induction n)
  case 0
  show ?case by simp
next
  case (Suc n)
  have "i mod (2 ^ n * 2) = (i div 2 ^ n mod 2) * 2 ^ n + i mod 2 ^ n"
    by (simp add: mod_mult2_eq)
  then show ?case
    using Suc by (simp add: mult.commute)
qed

lemma ravel_unravel_id: "i < 2 ^ n \<Longrightarrow> ravel (unravel n i) = i"
  by (simp add: ravel_unravel)

lemma ravel_append: "ravel (xs @ ys) = ravel xs * 2 ^ length ys + ravel ys"
  by (induction xs) (simp_all add: power_add algebra_simps)

lemma unravel_mod: "unravel n (i mod 2 ^ n) = unravel n i"
proof -
  have "i mod 2 ^ n + i div 2 ^ n * 2 ^ n = i"
    by (rule mod_div_mult_eq)
  then show ?thesis
    using unravel_shift [of n "i mod 2 ^ n" "i div 2 ^ n"] by (simp only:)
qed

lemma unravel_append:
  assumes "r < 2 ^ k" and "c < 2 ^ m"
  shows "unravel (k + m) (r * 2 ^ m + c) = unravel k r @ unravel m c"
proof -
  let ?bs = "unravel k r @ unravel m c"
  have bits: "\<forall>b \<in> set ?bs. b < 2"
    by (auto dest: unravel_bits)
  have "ravel ?bs = r * 2 ^ m + c"
    using assms by (simp add: ravel_append ravel_unravel)
  then show ?thesis
    using unravel_ravel [OF bits] by simp
qed

lemma unravel_zero: "unravel n 0 = replicate n 0"
  by (induction n) simp_all

lemma unravel_snoc: "unravel (Suc n) i = unravel n (i div 2) @ [i mod 2]"
proof (induction n arbitrary: i)
  case 0
  show ?case by simp
next
  case (Suc n)
  have "i div 2 div 2 ^ n = i div (2 * 2 ^ n)"
    by (simp add: div_mult2_eq)
  then have "unravel (Suc (Suc n)) i = (i div 2 div 2 ^ n) mod 2 # unravel (Suc n) i"
    by simp
  also have "\<dots> = (i div 2 div 2 ^ n) mod 2 # (unravel n (i div 2) @ [i mod 2])"
    by (simp only: Suc.IH)
  finally show ?case by simp
qed

section \<open>Axis permutations and transposition\<close>

subsection \<open>Positions in a list\<close>

lemma index_of_nth: "a \<in> set xs \<Longrightarrow> xs ! index_of a xs = a"
  by (induction xs) auto

lemma index_of_lt: "a \<in> set xs \<Longrightarrow> index_of a xs < length xs"
  by (induction xs) auto

lemma index_of_nth_distinct: "distinct xs \<Longrightarrow> j < length xs \<Longrightarrow> index_of (xs ! j) xs = j"
proof (induction xs arbitrary: j)
  case Nil
  then show ?case by simp
next
  case (Cons x xs)
  then show ?case by (cases j) auto
qed

lemma index_of_append:
  "index_of a (xs @ ys) = (if a \<in> set xs then index_of a xs else length xs + index_of a ys)"
  by (induction xs) auto

lemma index_of_map_inj:
  "inj_on f (insert x (set xs)) \<Longrightarrow> index_of (f x) (map f xs) = index_of x xs"
  by (induction xs) (auto simp: inj_on_def)

lemma index_of_upt: "i < n \<Longrightarrow> index_of i [0..<n] = i"
proof (induction n)
  case 0
  then show ?case by simp
next
  case (Suc n)
  then show ?case
    by (cases "i < n") (auto simp: index_of_append less_Suc_eq)
qed

lemma map_via_nth: "map f xs = map (\<lambda>t. f (xs ! t)) [0..<length xs]"
proof -
  have "map (\<lambda>t. f (xs ! t)) [0..<length xs] = map f (map ((!) xs) [0..<length xs])"
    by (simp only: map_map o_def)
  then show ?thesis
    by (simp only: map_nth)
qed

subsection \<open>Permutations of the axes\<close>

lemma is_axes_length: "is_axes n p \<Longrightarrow> length p = n"
proof -
  assume "is_axes n p"
  then have "distinct p" and "set p = {..<n}"
    by (simp_all add: is_axes_def)
  then show ?thesis
    using distinct_card [of p] by simp
qed

lemma is_axes_sort: "is_axes n p \<Longrightarrow> sort p = [0..<n]"
  unfolding is_axes_def
  by (intro sorted_distinct_set_unique) (auto simp: atLeast0LessThan)

lemma is_axes_mem: "is_axes n p \<Longrightarrow> a < n \<Longrightarrow> a \<in> set p"
  by (simp add: is_axes_def)

lemma is_axes_nth_lt: "is_axes n p \<Longrightarrow> j < n \<Longrightarrow> p ! j < n"
  using is_axes_length [of n p] nth_mem [of j p] by (auto simp: is_axes_def)

lemma argsort_axes: "is_axes n p \<Longrightarrow> argsort p = map (\<lambda>v. index_of v p) [0..<n]"
  by (simp add: argsort_def is_axes_sort)

lemma index_of_argsort:
  assumes "is_axes n p" and "a < n"
  shows "index_of a (argsort p) = p ! a"
proof -
  have len: "length p = n"
    using assms(1) by (rule is_axes_length)
  have pa: "p ! a < n"
    using assms by (rule is_axes_nth_lt)
  have inj: "inj_on (\<lambda>v. index_of v p) (insert (p ! a) (set [0..<n]))"
  proof (rule inj_onI)
    fix x y
    assume "x \<in> insert (p ! a) (set [0..<n])" "y \<in> insert (p ! a) (set [0..<n])"
      and eq: "index_of x p = index_of y p"
    then have "x \<in> set p" "y \<in> set p"
      using pa assms(1) by (auto simp: is_axes_def)
    then show "x = y"
      using eq by (metis index_of_nth)
  qed
  have "index_of a (argsort p) = index_of (index_of (p ! a) p) (map (\<lambda>v. index_of v p) [0..<n])"
    using assms len by (simp add: argsort_axes index_of_nth_distinct is_axes_def)
  also have "\<dots> = index_of (p ! a) [0..<n]"
    using inj by (rule index_of_map_inj)
  also have "\<dots> = p ! a"
    using pa by (rule index_of_upt)
  finally show ?thesis .
qed

lemma source_index_argsort:
  assumes "is_axes n p"
  shows "source_index n (argsort p) i = ravel (bits_at n i p)"
proof -
  have len: "length p = n"
    using assms by (rule is_axes_length)
  have "map (\<lambda>ax. unravel n i ! index_of ax (argsort p)) [0..<n] =
        map (\<lambda>ax. unravel n i ! (p ! ax)) [0..<n]"
    using assms by (simp add: index_of_argsort)
  also have "\<dots> = map (\<lambda>q. unravel n i ! q) (map (\<lambda>ax. p ! ax) [0..<length p])"
    by (simp add: len)
  also have "\<dots> = bits_at n i p"
    by (simp only: map_nth bits_at_def)
  finally show ?thesis
    by (simp add: source_index_def)
qed

lemma bits_at_lt: "is_axes n p \<Longrightarrow> \<forall>b \<in> set (bits_at n i p). b < 2"
  by (auto simp: bits_at_def is_axes_def intro: unravel_nth_lt)

lemma length_bits_at [simp]: "length (bits_at n i qs) = length qs"
  by (simp add: bits_at_def)

lemma source_bits_lt:
  assumes "is_axes n p"
  shows "\<forall>b \<in> set (map (\<lambda>ax. unravel n i ! index_of ax p) [0..<n]). b < 2"
proof
  fix b
  assume "b \<in> set (map (\<lambda>ax. unravel n i ! index_of ax p) [0..<n])"
  then obtain ax where ax: "ax < n" and b: "b = unravel n i ! index_of ax p"
    by auto
  have "index_of ax p < length p"
    using assms ax by (intro index_of_lt is_axes_mem)
  then show "b < 2"
    using assms by (simp add: b is_axes_length unravel_nth_lt)
qed

lemma target_lt: "is_axes n p \<Longrightarrow> ravel (bits_at n i p) < 2 ^ n"
  using ravel_lt [OF bits_at_lt, of n p i] by (simp add: is_axes_length)

lemma source_lt: "is_axes n p \<Longrightarrow> source_index n p i < 2 ^ n"
  using ravel_lt [OF source_bits_lt, of n p i] by (simp add: source_index_def)

lemma unravel_target:
  "is_axes n p \<Longrightarrow> unravel n (ravel (bits_at n i p)) = bits_at n i p"
  using unravel_ravel [OF bits_at_lt, of n p i] by (simp add: is_axes_length)

lemma unravel_source:
  "is_axes n p \<Longrightarrow>
   unravel n (source_index n p i) = map (\<lambda>ax. unravel n i ! index_of ax p) [0..<n]"
  using unravel_ravel [OF source_bits_lt, of n p i] by (simp add: source_index_def)

lemma source_target:
  assumes "is_axes n p" and "i < 2 ^ n"
  shows "source_index n p (ravel (bits_at n i p)) = i"
proof -
  have len: "length p = n"
    using assms(1) by (rule is_axes_length)
  have "map (\<lambda>ax. bits_at n i p ! index_of ax p) [0..<n] = map (\<lambda>ax. unravel n i ! ax) [0..<n]"
  proof (rule map_cong [OF refl])
    fix ax assume "ax \<in> set [0..<n]"
    then have mem: "ax \<in> set p"
      using assms(1) by (simp add: is_axes_def)
    then show "bits_at n i p ! index_of ax p = unravel n i ! ax"
      by (simp add: bits_at_def index_of_lt index_of_nth)
  qed
  also have "\<dots> = unravel n i"
    using map_nth [of "unravel n i"] by simp
  finally show ?thesis
    using assms by (simp add: source_index_def unravel_target ravel_unravel_id)
qed

lemma target_source:
  assumes "is_axes n p" and "j < 2 ^ n"
  shows "ravel (bits_at n (source_index n p j) p) = j"
proof -
  have len: "length p = n"
    using assms(1) by (rule is_axes_length)
  have "bits_at n (source_index n p j) p
      = map (\<lambda>q. map (\<lambda>ax. unravel n j ! index_of ax p) [0..<n] ! q) p"
    using assms(1) by (simp add: bits_at_def unravel_source)
  also have "\<dots> = map (\<lambda>q. unravel n j ! index_of q p) p"
    using assms(1) by (intro map_cong [OF refl]) (auto simp: is_axes_def)
  also have "\<dots> = map (\<lambda>t. unravel n j ! index_of (p ! t) p) [0..<length p]"
    by (rule map_via_nth)
  also have "\<dots> = map (\<lambda>t. unravel n j ! t) [0..<n]"
    using assms(1) by (simp add: len index_of_nth_distinct is_axes_def)
  also have "\<dots> = unravel n j"
    using map_nth [of "unravel n j"] by simp
  finally show ?thesis
    using assms(2) by (simp add: ravel_unravel_id)
qed

section \<open>Evaluation on small registers\<close>

lemma upt_0_2: "[0..<2] = [0, Suc 0]"
  by (simp add: upt_rec)

lemma upt_0_4: "[0..<4] = [0, 1, 2, 3]"
  by (simp add: upt_rec)

lemma unravel_1: "unravel (Suc 0) i = [i mod 2]"
  by simp

lemma unravel_2: "unravel 2 i = [i div 2 mod 2, i mod 2]"
  by (simp add: numeral_2_eq_2)

lemmas small_eval = upt_0_2 upt_0_4 unravel_1 unravel_2

lemma init_2: "init 2 = Inr \<lparr>num_qubits = 2, state = [1, 0, 0, 0]\<rparr>"
  by (simp add: init_def eval_nat_numeral)

lemma apply_unitary_2_0:
  "apply_unitary \<lparr>num_qubits = 2, state = [a, b, c, d]\<rparr>
     \<lparr>shape = [2, 2], data = [u0, u1, u2, u3]\<rparr> [0] =
   Inr \<lparr>num_qubits = 2,
        state = [u0 * a + u1 * c, u0 * b + u1 * d, u2 * a + u3 * c, u2 * b + u3 * d]\<rparr>"
  by (simp add: apply_unitary_def normalise_qubits_def Let_def permutation_of_def
      np_transpose_def source_index_def small_eval argsort_def matmul_def)

lemma hadamard_2_0:
  "hadamard \<lparr>num_qubits = 2, state = [1, 0, 0, 0]\<rparr> 0 =
   Inr \<lparr>num_qubits = 2,
        state = [1 / complex_of_real (sqrt 2), 0, 1 / complex_of_real (sqrt 2), 0]\<rparr>"
  by (simp add: hadamard_def H_gate_def apply_unitary_2_0)

lemma cnot_2_01:
  "cnot \<lparr>num_qubits = 2, state = [a, b, c, d]\<rparr> 0 1 =
   Inr \<lparr>num_qubits = 2, state = [a, b, d, c]\<rparr>"
  by (simp add: cnot_def CNOT_gate_def apply_unitary_def normalise_qubits_def Let_def
      permutation_of_def np_transpose_def source_index_def small_eval argsort_def matmul_def)

lemma probabilities_2_all:
  "probabilities \<lparr>num_qubits = 2, state = [a, b, c, d]\<rparr> None =
   Inr [(''00'', (cmod a)\<^sup>2), (''01'', (cmod b)\<^sup>2),
        (''10'', (cmod c)\<^sup>2), (''11'', (cmod d)\<^sup>2)]"
  by (simp add: probabilities_def normalise_qubits_def Let_def
      distribution_from_probabilities_def permutation_of_def np_transpose_def source_index_def small_eval
      format_b_def bin_digits.simps dict_of_items_def bit_char_def)

lemma probabilities_1_0:
  "probabilities \<lparr>num_qubits = 1, state = [a, b]\<rparr> (Some [0]) =
   Inr [(''0'', (cmod a)\<^sup>2), (''1'', (cmod b)\<^sup>2)]"
  by (simp add: probabilities_def normalise_qubits_def Let_def
      distribution_from_probabilities_def permutation_of_def np_transpose_def source_index_def small_eval
      format_b_def bin_digits.simps dict_of_items_def bit_char_def)

lemma collapse_state_1_0_one:
  "collapse_state \<lparr>num_qubits = 1, state = [1, 0]\<rparr> [0] ''1'' =
   Inr \<lparr>num_qubits = 1, state = [0, 0]\<rparr>"
  by (simp add: collapse_state_def int_base2_def char_bit_def Let_def permutation_of_def
      np_transpose_def source_index_def small_eval argsort_def)

section \<open>Validation of arguments\<close>

lemma len_remdups_iff: "length qs \<noteq> length (remdups qs) \<longleftrightarrow> \<not> distinct qs"
  by (metis length_remdups_eq remdups_id_iff_distinct)

lemma normalise_dup:
  "\<not> distinct qs \<Longrightarrow> normalise_qubits c (Some qs) = Inl ValueError"
  by (simp add: normalise_qubits_def len_remdups_iff)

lemma normalise_range:
  "distinct qs \<Longrightarrow> \<exists>q \<in> set qs. q < 0 \<or> int (num_qubits c) \<le> q \<Longrightarrow>
   normalise_qubits c (Some qs) = Inl IndexError"
  unfolding normalise_qubits_def len_remdups_iff by (simp add: Bex_def) (metis not_le)

lemma normalise_ok:
  "distinct qs \<Longrightarrow> \<forall>q \<in> set qs. 0 \<le> q \<and> q < int (num_qubits c) \<Longrightarrow>
   normalise_qubits c (Some qs) = Inr (map nat qs)"
  unfolding normalise_qubits_def len_remdups_iff by simp

lemma normalise_invalid:
  "\<exists>q \<in> set qs. q < 0 \<or> int (num_qubits c) \<le> q \<Longrightarrow> isl (normalise_qubits c (Some qs))"
  by (cases "distinct qs") (simp_all add: normalise_dup normalise_range)

lemma apply_unitary_invalid_qubits:
  "isl (normalise_qubits c (Some qs)) \<Longrightarrow> isl (apply_unitary c u qs)"
  by (auto simp: apply_unitary_def isl_def)

lemma probabilities_invalid_qubits:
  "normalise_qubits c qs = Inl e \<Longrightarrow> probabilities c qs = Inl e"
  by (simp add: probabilities_def)

lemma measure_invalid_qubits:
  "normalise_qubits c qs = Inl e \<Longrightarrow> isl (measure_qubits c qs shots rng)"
  by (simp add: measure_qubits_def)

lemma measure_invalid_qubits_pos:
  "normalise_qubits c qs = Inl e \<Longrightarrow> 0 < shots \<Longrightarrow> measure_qubits c qs shots rng = Inl e"
  by (simp add: measure_qubits_def)

lemma apply_unitary_dup: "\<not> distinct qs \<Longrightarrow> apply_unitary c u qs = Inl ValueError"
  by (simp add: apply_unitary_def normalise_dup)

lemma apply_unitary_single_range:
  "q < 0 \<or> int (num_qubits c) \<le> q \<Longrightarrow> length (shape u) = 2 \<Longrightarrow>
   shape u ! 0 = shape u ! 1 \<Longrightarrow> apply_unitary c u [q] = Inl IndexError"
  by (simp add: apply_unitary_def normalise_range)

text \<open>
  Claim C6 (atomic failure). Every invalid argument makes the call raise: a qubit count
  \<open>n \<le> 0\<close> at construction; a qubit list \<open>dup\<close> with a repeated index or a list \<open>oor\<close>
  with an index outside \<open>[0, n)\<close> in a gate, probability or measurement call; a CNOT
  whose control is its target; a custom matrix \<open>u'\<close> that is not a square matrix, or
  \<open>u''\<close> whose dimension is not \<open>2 ^ k\<close> for the \<open>k\<close> qubits given; a shot count
  \<open>shots' \<le> 0\<close>. Each call returns \<open>Inl\<close>, the branch taken before the single
  assignment to the state at the end of the method, so no successor register exists and
  the amplitude vector of the register passed in is the one the caller still holds.
\<close>

theorem invalid_arguments_fail:
  "(n \<le> 0 \<longrightarrow> init n = Inl ValueError) \<and>
   (\<not> distinct dup \<longrightarrow>
      apply_custom c u dup = Inl ValueError \<and>
      probabilities c (Some dup) = Inl ValueError \<and>
      measure_qubits c (Some dup) shots rng = Inl ValueError) \<and>
   ((\<exists>q \<in> set oor. q < 0 \<or> int (num_qubits c) \<le> q) \<longrightarrow>
      isl (apply_custom c u oor) \<and>
      isl (probabilities c (Some oor)) \<and>
      isl (measure_qubits c (Some oor) shots rng)) \<and>
   (q < 0 \<or> int (num_qubits c) \<le> q \<longrightarrow>
      hadamard c q = Inl IndexError \<and> pauli_x c q = Inl IndexError \<and>
      isl (cnot c q q') \<and> isl (cnot c q' q)) \<and>
   cnot c q' q' = Inl ValueError \<and>
   (length (shape u') \<noteq> 2 \<or> shape u' ! 0 \<noteq> shape u' ! 1 \<longrightarrow>
      apply_custom c u' qs = Inl ValueError) \<and>
   (shape u'' ! 0 \<noteq> 2 ^ length qs \<longrightarrow> isl (apply_custom c u'' qs)) \<and>
   (shots' \<le> 0 \<longrightarrow> measure_qubits c qs' shots' rng = Inl ValueError)"
proof (intro conjI impI)
  show "init n = Inl ValueError" if "n \<le> 0"
    using that by (simp add: init_def)
  show "apply_custom c u dup = Inl ValueError" if "\<not> distinct dup"
    using that by (simp add: apply_custom_def apply_unitary_dup)
  show "probabilities c (Some dup) = Inl ValueError" if "\<not> distinct dup"
    using that by (simp add: probabilities_invalid_qubits normalise_dup)
  show "measure_qubits c (Some dup) shots rng = Inl ValueError" if "\<not> distinct dup"
    using that by (cases "0 < shots") (simp_all add: measure_qubits_def normalise_dup)
next
  assume "\<exists>q \<in> set oor. q < 0 \<or> int (num_qubits c) \<le> q"
  then have i: "isl (normalise_qubits c (Some oor))"
    by (rule normalise_invalid)
  then obtain e where e: "normalise_qubits c (Some oor) = Inl e"
    by (auto simp: isl_def)
  show "isl (apply_custom c u oor)"
    using i by (simp add: apply_custom_def apply_unitary_invalid_qubits)
  show "isl (probabilities c (Some oor))"
    using e by (simp add: probabilities_invalid_qubits)
  show "isl (measure_qubits c (Some oor) shots rng)"
    using e by (rule measure_invalid_qubits)
next
  assume a: "q < 0 \<or> int (num_qubits c) \<le> q"
  show "hadamard c q = Inl IndexError"
    using a by (simp add: hadamard_def H_gate_def apply_unitary_single_range)
  show "pauli_x c q = Inl IndexError"
    using a by (simp add: pauli_x_def X_gate_def apply_unitary_single_range)
  have "isl (normalise_qubits c (Some [q, q']))" "isl (normalise_qubits c (Some [q', q]))"
    using a by (auto intro!: normalise_invalid)
  then show "isl (cnot c q q')" "isl (cnot c q' q)"
    by (simp_all add: cnot_def apply_unitary_invalid_qubits)
next
  show "cnot c q' q' = Inl ValueError"
    by (simp add: cnot_def)
  show "apply_custom c u' qs = Inl ValueError"
    if "length (shape u') \<noteq> 2 \<or> shape u' ! 0 \<noteq> shape u' ! 1"
    using that by (auto simp add: apply_custom_def apply_unitary_def)
  show "isl (apply_custom c u'' qs)" if "shape u'' ! 0 \<noteq> 2 ^ length qs"
    using that by (auto simp add: apply_custom_def apply_unitary_def normalise_qubits_def
        Let_def split: sum.splits if_splits)
  show "measure_qubits c qs' shots' rng = Inl ValueError" if "shots' \<le> 0"
    using that by (simp add: measure_qubits_def)
qed

theorem invalid_arguments_fail_witness:
  "init 0 = Inl ValueError \<and>
   apply_custom \<lparr>num_qubits = 1, state = [1, 0]\<rparr> X_gate [0, 0] = Inl ValueError \<and>
   probabilities \<lparr>num_qubits = 1, state = [1, 0]\<rparr> (Some [0, 0]) = Inl ValueError \<and>
   measure_qubits \<lparr>num_qubits = 1, state = [1, 0]\<rparr> (Some [0, 0]) 1
     (\<lambda>a size p. Inr (replicate size 0)) = Inl ValueError \<and>
   isl (apply_custom \<lparr>num_qubits = 1, state = [1, 0]\<rparr> X_gate [1]) \<and>
   isl (probabilities \<lparr>num_qubits = 1, state = [1, 0]\<rparr> (Some [1])) \<and>
   isl (measure_qubits \<lparr>num_qubits = 1, state = [1, 0]\<rparr> (Some [1]) 1
     (\<lambda>a size p. Inr (replicate size 0))) \<and>
   hadamard \<lparr>num_qubits = 1, state = [1, 0]\<rparr> (- 1) = Inl IndexError \<and>
   pauli_x \<lparr>num_qubits = 1, state = [1, 0]\<rparr> (- 1) = Inl IndexError \<and>
   isl (cnot \<lparr>num_qubits = 1, state = [1, 0]\<rparr> (- 1) 0) \<and>
   isl (cnot \<lparr>num_qubits = 1, state = [1, 0]\<rparr> 0 (- 1)) \<and>
   cnot \<lparr>num_qubits = 1, state = [1, 0]\<rparr> 0 0 = Inl ValueError \<and>
   apply_custom \<lparr>num_qubits = 1, state = [1, 0]\<rparr>
     \<lparr>shape = [1, 2], data = [1, 0]\<rparr> [0] = Inl ValueError \<and>
   isl (apply_custom \<lparr>num_qubits = 1, state = [1, 0]\<rparr> CNOT_gate [0]) \<and>
   measure_qubits \<lparr>num_qubits = 1, state = [1, 0]\<rparr> None 0
     (\<lambda>a size p. Inr (replicate size 0)) = Inl ValueError"
  using invalid_arguments_fail [where n = 0 and dup = "[0, 0]" and oor = "[1]"
      and c = "\<lparr>num_qubits = 1, state = [1, 0]\<rparr>" and u = X_gate and shots = 1
      and rng = "\<lambda>a size p. Inr (replicate size 0)" and q = "- 1" and q' = 0
      and u' = "\<lparr>shape = [1, 2], data = [1, 0]\<rparr>" and qs = "[0]" and u'' = CNOT_gate
      and shots' = 0 and qs' = None]
  by (simp add: CNOT_gate_def)

section \<open>Gate application\<close>

lemma sub_index_bits: "sub_index n qs i = ravel (bits_at n i qs)"
  by (simp add: sub_index_def bits_at_def)

lemma permutation_axes:
  assumes "valid_qubits n qs"
  shows "is_axes n (permutation_of n qs)"
proof -
  have "distinct (permutation_of n qs)"
    using assms by (auto simp: permutation_of_def valid_qubits_def)
  moreover have "set (permutation_of n qs) = {..<n}"
    using assms by (auto simp: permutation_of_def valid_qubits_def)
  ultimately show ?thesis
    by (simp add: is_axes_def)
qed

lemma length_rest:
  assumes "valid_qubits n qs"
  shows "length qs + length (rest_axes n qs) = n"
  using is_axes_length [OF permutation_axes [OF assms]] by (simp add: permutation_of_def)

lemma valid_qubits_le: "valid_qubits n qs \<Longrightarrow> length qs \<le> n"
  using length_rest [of n qs] by simp

lemma length_rest_eq: "valid_qubits n qs \<Longrightarrow> length (rest_axes n qs) = n - length qs"
  using length_rest [of n qs] by simp

lemma pow_split: "valid_qubits n qs \<Longrightarrow> (2::nat) ^ length qs * 2 ^ (n - length qs) = 2 ^ n"
  using valid_qubits_le [of n qs] by (simp flip: power_add)

lemma bits_at_append: "bits_at n i (xs @ ys) = bits_at n i xs @ bits_at n i ys"
  by (simp add: bits_at_def)

lemma bits_at_sub_lt: "valid_qubits n qs \<Longrightarrow> \<forall>b \<in> set (bits_at n i qs). b < 2"
  by (auto simp: bits_at_def valid_qubits_def intro: unravel_nth_lt)

lemma bits_at_rest_lt: "\<forall>b \<in> set (bits_at n i (rest_axes n qs)). b < 2"
  by (auto simp: bits_at_def intro: unravel_nth_lt)

lemma sub_index_lt: "valid_qubits n qs \<Longrightarrow> sub_index n qs i < 2 ^ length qs"
  using ravel_lt [OF bits_at_sub_lt, of n qs i] by (simp add: sub_index_bits)

lemma rest_index_lt: "valid_qubits n qs \<Longrightarrow> rest_index n qs i < 2 ^ (n - length qs)"
  using ravel_lt [OF bits_at_rest_lt, of n i qs] by (simp add: rest_index_def length_rest_eq)

lemma target_split:
  assumes "valid_qubits n qs"
  shows "ravel (bits_at n i (permutation_of n qs)) =
         sub_index n qs i * 2 ^ (n - length qs) + rest_index n qs i"
  using assms
  by (simp add: permutation_of_def bits_at_append ravel_append sub_index_bits rest_index_def
      length_rest_eq)

lemma target_div:
  assumes "valid_qubits n qs"
  shows "ravel (bits_at n i (permutation_of n qs)) div 2 ^ (n - length qs) = sub_index n qs i"
  using rest_index_lt [OF assms, of i] by (simp add: target_split [OF assms])

lemma target_mod:
  assumes "valid_qubits n qs"
  shows "ravel (bits_at n i (permutation_of n qs)) mod 2 ^ (n - length qs) = rest_index n qs i"
  using rest_index_lt [OF assms, of i] by (simp add: target_split [OF assms])

lemma unravel_rest_index:
  "valid_qubits n qs \<Longrightarrow>
   unravel (n - length qs) (rest_index n qs i) = bits_at n i (rest_axes n qs)"
  using unravel_ravel [OF bits_at_rest_lt, of n i qs] by (simp add: rest_index_def length_rest_eq)

lemma source_of_pair:
  assumes v: "valid_qubits n qs" and j: "j < 2 ^ length qs"
  shows "source_index n (permutation_of n qs) (j * 2 ^ (n - length qs) + rest_index n qs i) =
         with_sub_index n qs i j"
proof -
  let ?k = "length qs" and ?rest = "rest_axes n qs"
  have n: "n = ?k + (n - ?k)"
    using valid_qubits_le [OF v] by simp
  have un: "unravel n (j * 2 ^ (n - ?k) + rest_index n qs i) = unravel ?k j @ bits_at n i ?rest"
    using unravel_append [OF j rest_index_lt [OF v], of i] n
    by (simp add: unravel_rest_index [OF v])
  have eq: "map (\<lambda>ax. (unravel ?k j @ bits_at n i ?rest) ! index_of ax (permutation_of n qs)) [0..<n]
      = map (\<lambda>a. if a \<in> set qs then unravel ?k j ! index_of a qs else unravel n i ! a) [0..<n]"
  proof (rule map_cong [OF refl])
    fix a
    assume "a \<in> set [0..<n]"
    then have a: "a < n" by simp
    show "(unravel ?k j @ bits_at n i ?rest) ! index_of a (permutation_of n qs) =
          (if a \<in> set qs then unravel ?k j ! index_of a qs else unravel n i ! a)"
    proof (cases "a \<in> set qs")
      case True
      then show ?thesis
        by (simp add: permutation_of_def index_of_append nth_append index_of_lt)
    next
      case False
      with a have mem: "a \<in> set ?rest" by simp
      have "bits_at n i ?rest ! index_of a ?rest = unravel n i ! (?rest ! index_of a ?rest)"
        using index_of_lt [OF mem] by (simp add: bits_at_def)
      also have "\<dots> = unravel n i ! a"
        by (simp only: index_of_nth [OF mem])
      finally show ?thesis
        using False by (simp add: permutation_of_def index_of_append nth_append)
    qed
  qed
  show ?thesis
    unfolding source_index_def with_sub_index_def un by (simp only: eq)
qed

lemma with_sub_index_bits:
  assumes v: "valid_qubits n qs" and j: "j < 2 ^ length qs" and a: "a < n"
  shows "unravel n (with_sub_index n qs i j) ! a =
         (if a \<in> set qs then unravel (length qs) j ! index_of a qs else unravel n i ! a)"
proof -
  let ?bs = "map (\<lambda>a. if a \<in> set qs then unravel (length qs) j ! index_of a qs
                       else unravel n i ! a) [0..<n]"
  have "\<forall>b \<in> set ?bs. b < 2"
  proof
    fix b assume "b \<in> set ?bs"
    then obtain x where x: "x < n"
      and b: "b = (if x \<in> set qs then unravel (length qs) j ! index_of x qs else unravel n i ! x)"
      by auto
    show "b < 2"
      using x by (simp add: b unravel_nth_lt index_of_lt)
  qed
  then have "unravel (length ?bs) (ravel ?bs) = ?bs"
    by (rule unravel_ravel)
  then have "unravel n (with_sub_index n qs i j) = ?bs"
    by (simp add: with_sub_index_def)
  then show ?thesis
    using a by simp
qed

lemma np_transpose_nth:
  "i < 2 ^ n \<Longrightarrow> np_transpose n a axes ! i = a ! source_index n axes i"
  by (simp add: np_transpose_def)

lemma length_np_transpose [simp]: "length (np_transpose n a axes) = 2 ^ n"
  by (simp add: np_transpose_def)

lemma matmul_nth:
  "i < d * m \<Longrightarrow>
   matmul d m u x ! i = (\<Sum>j\<leftarrow>[0..<d]. u ! ((i div m) * d + j) * x ! (j * m + i mod m))"
  by (simp add: matmul_def)

lemma length_matmul [simp]: "length (matmul d m u x) = d * m"
  by (simp add: matmul_def)

lemma pair_lt:
  assumes "valid_qubits n qs" and "j < 2 ^ length qs" and "r < 2 ^ (n - length qs)"
  shows "j * 2 ^ (n - length qs) + r < (2::nat) ^ n"
proof -
  have "j * 2 ^ (n - length qs) + r < (j + 1) * (2::nat) ^ (n - length qs)"
    using assms(3) by simp
  also have "\<dots> \<le> 2 ^ length qs * (2::nat) ^ (n - length qs)"
    using assms(2) by (intro mult_le_mono1) simp
  finally show ?thesis
    by (simp only: pow_split [OF assms(1)])
qed

lemma restored_state:
  assumes v: "valid_qubits n qs"
  shows "np_transpose n
           (matmul (2 ^ length qs) (2 ^ (n - length qs)) u
              (np_transpose n a (permutation_of n qs)))
           (argsort (permutation_of n qs)) =
         spec_subspace_action n qs u a"
proof -
  let ?k = "length qs" and ?p = "permutation_of n qs"
  let ?m = "2 ^ (n - ?k) :: nat"
  let ?x = "np_transpose n a ?p"
  have ax: "is_axes n ?p"
    using v by (rule permutation_axes)
  have entry: "matmul (2 ^ ?k) ?m u ?x ! source_index n (argsort ?p) i =
      (\<Sum>j\<leftarrow>[0..<2 ^ ?k]. u ! (sub_index n qs i * 2 ^ ?k + j) * a ! with_sub_index n qs i j)"
    for i
  proof -
    let ?t = "ravel (bits_at n i ?p)"
    have t: "source_index n (argsort ?p) i = ?t"
      using ax by (rule source_index_argsort)
    have lt: "?t < 2 ^ ?k * ?m"
      using target_lt [OF ax, of i] by (simp only: pow_split [OF v])
    have "matmul (2 ^ ?k) ?m u ?x ! ?t =
        (\<Sum>j\<leftarrow>[0..<2 ^ ?k]. u ! (sub_index n qs i * 2 ^ ?k + j) * ?x ! (j * ?m + rest_index n qs i))"
      by (simp only: matmul_nth [OF lt] target_div [OF v] target_mod [OF v])
    also have "\<dots> =
        (\<Sum>j\<leftarrow>[0..<2 ^ ?k]. u ! (sub_index n qs i * 2 ^ ?k + j) * a ! with_sub_index n qs i j)"
    proof (rule arg_cong [where f = sum_list], rule map_cong [OF refl])
      fix j
      assume "j \<in> set [0..<2 ^ ?k]"
      then have j: "j < 2 ^ ?k" by simp
      have "?x ! (j * ?m + rest_index n qs i) = a ! with_sub_index n qs i j"
        using pair_lt [OF v j rest_index_lt [OF v, of i]]
        by (simp add: np_transpose_nth source_of_pair [OF v j])
      then show "u ! (sub_index n qs i * 2 ^ ?k + j) * ?x ! (j * ?m + rest_index n qs i) =
                 u ! (sub_index n qs i * 2 ^ ?k + j) * a ! with_sub_index n qs i j"
        by simp
    qed
    finally show ?thesis
      by (simp only: t)
  qed
  show ?thesis
    unfolding np_transpose_def [of n _ "argsort ?p"] spec_subspace_action_def
    by (simp only: entry)
qed

lemma normalise_valid:
  assumes "valid_qubits (num_qubits c) qs"
  shows "normalise_qubits c (Some (map int qs)) = Inr qs"
proof -
  have "distinct (map int qs)"
    using assms by (simp add: valid_qubits_def distinct_map)
  moreover have "\<forall>q \<in> set (map int qs). 0 \<le> q \<and> q < int (num_qubits c)"
    using assms by (auto simp: valid_qubits_def)
  ultimately have "normalise_qubits c (Some (map int qs)) = Inr (map nat (map int qs))"
    by (rule normalise_ok)
  then show ?thesis
    by (simp add: o_def)
qed

lemma apply_unitary_valid:
  assumes "valid_qubits (num_qubits c) qs" and "shape u = [2 ^ length qs, 2 ^ length qs]"
  shows "apply_unitary c u (map int qs) =
         Inr (c\<lparr>state := spec_subspace_action (num_qubits c) qs (data u) (state c)\<rparr>)"
  using assms
  by (simp add: apply_unitary_def normalise_valid Let_def restored_state)

text \<open>
  Claim C1 (gate application). On a register of \<open>n\<close> qubits, for distinct qubit indices
  \<open>qs\<close> in \<open>[0, n)\<close> and a matrix \<open>u\<close> of shape \<open>2 ^ k\<close> by \<open>2 ^ k\<close>, \<^verbatim>\<open>apply_custom\<close>
  replaces the amplitude vector by \<open>u\<close> acting on the qubits \<open>qs\<close> and the identity on the
  others, under the most-significant-bit-first indexing; the named gates do so with
  their fixed matrices. Amplitudes are only combined across basis states that agree on
  every qubit outside \<open>qs\<close>.
\<close>

theorem unitary_acts_on_subspace:
  assumes "wf_circuit c"
  shows "(valid_qubits (num_qubits c) qs \<and> shape u = [2 ^ length qs, 2 ^ length qs] \<longrightarrow>
            apply_custom c u (map int qs) =
              Inr (c\<lparr>state := spec_subspace_action (num_qubits c) qs (data u) (state c)\<rparr>)) \<and>
         (q < num_qubits c \<longrightarrow>
            hadamard c (int q) =
              Inr (c\<lparr>state := spec_subspace_action (num_qubits c) [q] (data H_gate) (state c)\<rparr>) \<and>
            pauli_x c (int q) =
              Inr (c\<lparr>state := spec_subspace_action (num_qubits c) [q] (data X_gate) (state c)\<rparr>)) \<and>
         (q1 < num_qubits c \<and> q2 < num_qubits c \<and> q1 \<noteq> q2 \<longrightarrow>
            cnot c (int q1) (int q2) =
              Inr (c\<lparr>state := spec_subspace_action (num_qubits c) [q1, q2] (data CNOT_gate) (state c)\<rparr>))"
proof (intro conjI impI)
  assume "valid_qubits (num_qubits c) qs \<and> shape u = [2 ^ length qs, 2 ^ length qs]"
  then show "apply_custom c u (map int qs) =
      Inr (c\<lparr>state := spec_subspace_action (num_qubits c) qs (data u) (state c)\<rparr>)"
    by (simp add: apply_custom_def apply_unitary_valid)
next
  assume "q < num_qubits c"
  then have v: "valid_qubits (num_qubits c) [q]"
    by (simp add: valid_qubits_def)
  show "hadamard c (int q) =
      Inr (c\<lparr>state := spec_subspace_action (num_qubits c) [q] (data H_gate) (state c)\<rparr>)"
    using apply_unitary_valid [OF v, of H_gate] by (simp add: hadamard_def H_gate_def)
  show "pauli_x c (int q) =
      Inr (c\<lparr>state := spec_subspace_action (num_qubits c) [q] (data X_gate) (state c)\<rparr>)"
    using apply_unitary_valid [OF v, of X_gate] by (simp add: pauli_x_def X_gate_def)
next
  assume "q1 < num_qubits c \<and> q2 < num_qubits c \<and> q1 \<noteq> q2"
  then have v: "valid_qubits (num_qubits c) [q1, q2]" and ne: "int q1 \<noteq> int q2"
    by (simp_all add: valid_qubits_def)
  show "cnot c (int q1) (int q2) =
      Inr (c\<lparr>state := spec_subspace_action (num_qubits c) [q1, q2] (data CNOT_gate) (state c)\<rparr>)"
    using apply_unitary_valid [OF v, of CNOT_gate] ne by (simp add: cnot_def CNOT_gate_def)
qed

lemma spec_subspace_action_2_10:
  "spec_subspace_action 2 [1, 0] u [a, b, c, d] =
    [u ! 0 * a + (u ! 1 * c + (u ! 2 * b + u ! 3 * d)),
     u ! 8 * a + (u ! 9 * c + (u ! 10 * b + u ! 11 * d)),
     u ! 4 * a + (u ! 5 * c + (u ! 6 * b + u ! 7 * d)),
     u ! 12 * a + (u ! 13 * c + (u ! 14 * b + u ! 15 * d))]"
  by (simp add: spec_subspace_action_def sub_index_def with_sub_index_def small_eval
      flip: numeral_2_eq_2)

theorem unitary_acts_on_subspace_witness:
  "wf_circuit \<lparr>num_qubits = 2, state = [1, 0, 0, 0]\<rparr> \<and>
   valid_qubits 2 [1, 0] \<and>
   apply_custom \<lparr>num_qubits = 2, state = [1, 0, 0, 0]\<rparr> CNOT_gate [1, 0] =
     Inr \<lparr>num_qubits = 2, state = spec_subspace_action 2 [1, 0] (data CNOT_gate) [1, 0, 0, 0]\<rparr> \<and>
   hadamard \<lparr>num_qubits = 2, state = [1, 0, 0, 0]\<rparr> 0 =
     Inr \<lparr>num_qubits = 2, state = spec_subspace_action 2 [0] (data H_gate) [1, 0, 0, 0]\<rparr> \<and>
   pauli_x \<lparr>num_qubits = 2, state = [1, 0, 0, 0]\<rparr> 0 =
     Inr \<lparr>num_qubits = 2, state = spec_subspace_action 2 [0] (data X_gate) [1, 0, 0, 0]\<rparr> \<and>
   cnot \<lparr>num_qubits = 2, state = [1, 0, 0, 0]\<rparr> 0 1 =
     Inr \<lparr>num_qubits = 2, state = spec_subspace_action 2 [0, 1] (data CNOT_gate) [1, 0, 0, 0]\<rparr>"
  using unitary_acts_on_subspace [of "\<lparr>num_qubits = 2, state = [1, 0, 0, 0]\<rparr>" "[1, 0]"
      CNOT_gate 0 0 1]
  by (simp add: wf_circuit_def valid_qubits_def CNOT_gate_def)

section \<open>Bit strings and dicts\<close>

lemma length_bin_digits_le: "0 < w \<Longrightarrow> i < 2 ^ w \<Longrightarrow> length (bin_digits i) \<le> w"
proof (induction w arbitrary: i)
  case 0
  then show ?case by simp
next
  case (Suc w)
  show ?case
  proof (cases "i < 2")
    case True
    then show ?thesis
      by (simp add: bin_digits.simps [of i])
  next
    case False
    then have w: "0 < w"
      using Suc.prems by (cases w) auto
    have "i div 2 < 2 ^ w"
      using Suc.prems by (simp add: less_mult_imp_div_less mult.commute)
    then have "length (bin_digits (i div 2)) \<le> w"
      using w by (intro Suc.IH)
    then show ?thesis
      using False by (simp add: bin_digits.simps [of i])
  qed
qed

lemma format_b_unravel: "0 < w \<Longrightarrow> i < 2 ^ w \<Longrightarrow> format_b w i = map bit_char (unravel w i)"
proof (induction w arbitrary: i)
  case 0
  then show ?case by simp
next
  case (Suc w)
  show ?case
  proof (cases "i < 2")
    case True
    then have "i div 2 = 0" by simp
    then show ?thesis
      using True
      by (simp only: unravel_snoc unravel_zero format_b_def bin_digits.simps [of i])
         (simp add: bit_char_def)
  next
    case False
    then have w: "0 < w"
      using Suc.prems by (cases w) auto
    have lt: "i div 2 < 2 ^ w"
      using Suc.prems by (simp add: less_mult_imp_div_less mult.commute)
    have len: "length (bin_digits (i div 2)) \<le> w"
      using w lt by (rule length_bin_digits_le)
    have "format_b (Suc w) i = format_b w (i div 2) @ [bit_char (i mod 2)]"
      using False len by (simp add: format_b_def bin_digits.simps [of i] Suc_diff_le)
    also have "\<dots> = map bit_char (unravel w (i div 2)) @ [bit_char (i mod 2)]"
      using w lt by (simp only: Suc.IH)
    also have "\<dots> = map bit_char (unravel (Suc w) i)"
      by (simp only: unravel_snoc map_append list.map)
    finally show ?thesis .
  qed
qed

lemma bit_char_inj: "a < 2 \<Longrightarrow> b < 2 \<Longrightarrow> bit_char a = bit_char b \<longleftrightarrow> a = b"
  by (auto simp: bit_char_def)

lemma map_bit_char_eq:
  assumes "\<forall>b \<in> set xs. b < 2" and "\<forall>b \<in> set ys. b < 2"
  shows "map bit_char xs = map bit_char ys \<longleftrightarrow> xs = ys"
proof
  assume eq: "map bit_char xs = map bit_char ys"
  then have len: "length xs = length ys"
    by (rule map_eq_imp_length_eq)
  show "xs = ys"
  proof (rule nth_equalityI [OF len])
    fix t assume t: "t < length xs"
    then have "bit_char (xs ! t) = bit_char (ys ! t)"
      using eq len by (metis nth_map)
    moreover have "xs ! t < 2" "ys ! t < 2"
      using assms t len by simp_all
    ultimately show "xs ! t = ys ! t"
      by (simp add: bit_char_inj)
  qed
qed simp

lemma format_b_inj:
  assumes "0 < w" and "i < 2 ^ w" and "j < 2 ^ w"
  shows "format_b w i = format_b w j \<longleftrightarrow> i = j"
proof
  assume "format_b w i = format_b w j"
  then have "unravel w i = unravel w j"
    using assms by (simp add: format_b_unravel map_bit_char_eq unravel_bits)
  then have "ravel (unravel w i) = ravel (unravel w j)"
    by simp
  then show "i = j"
    using assms by (simp add: ravel_unravel_id)
qed simp

lemma distinct_format_b: "0 < w \<Longrightarrow> distinct (map (format_b w) [0..<2 ^ w])"
  by (auto simp: distinct_map inj_on_def format_b_inj)

lemma bit_char_char_bit:
  "set s \<subseteq> {CHR ''0'', CHR ''1''} \<Longrightarrow> map bit_char (map char_bit s) = s"
  by (induction s) (auto simp: char_bit_def bit_char_def)

lemma bit_strings_are_formats:
  assumes "0 < w"
  shows "format_b w ` {..<2 ^ w} = {s. length s = w \<and> set s \<subseteq> {CHR ''0'', CHR ''1''}}"
proof (intro set_eqI iffI)
  fix s
  assume "s \<in> format_b w ` {..<2 ^ w}"
  then obtain i where i: "i < 2 ^ w" and s: "s = format_b w i"
    by auto
  have "s = map bit_char (unravel w i)"
    using assms i by (simp add: s format_b_unravel)
  then show "s \<in> {s. length s = w \<and> set s \<subseteq> {CHR ''0'', CHR ''1''}}"
    by (auto simp: bit_char_def)
next
  fix s
  assume "s \<in> {s. length s = w \<and> set s \<subseteq> {CHR ''0'', CHR ''1''}}"
  then have len: "length s = w" and chars: "set s \<subseteq> {CHR ''0'', CHR ''1''}"
    by auto
  let ?bs = "map char_bit s"
  have bits: "\<forall>b \<in> set ?bs. b < 2"
    by (auto simp: char_bit_def)
  have rt: "map bit_char ?bs = s"
    using chars by (rule bit_char_char_bit)
  have lt: "ravel ?bs < 2 ^ w"
    using ravel_lt [OF bits] by (simp add: len)
  have "format_b w (ravel ?bs) = map bit_char (unravel (length ?bs) (ravel ?bs))"
    using assms lt by (simp add: format_b_unravel len)
  also have "\<dots> = s"
    by (simp only: unravel_ravel [OF bits] rt)
  finally show "s \<in> format_b w ` {..<2 ^ w}"
    using lt by (metis imageI lessThan_iff)
qed

subsection \<open>Dicts\<close>

lemma update_fresh: "k \<notin> fst ` set d \<Longrightarrow> AList.update k v d = d @ [(k, v)]"
  by (induction d) auto

lemma foldl_update_distinct:
  "distinct (map fst (acc @ xs)) \<Longrightarrow>
   foldl (\<lambda>d (k, v). AList.update k v d) acc xs = acc @ xs"
proof (induction xs arbitrary: acc)
  case Nil
  show ?case by simp
next
  case (Cons x xs)
  obtain k v where x: "x = (k, v)" by (cases x)
  have fresh: "k \<notin> fst ` set acc"
    using Cons.prems by (auto simp: x)
  have "distinct (map fst ((acc @ [(k, v)]) @ xs))"
    using Cons.prems by (simp add: x)
  then have "foldl (\<lambda>d (k, v). AList.update k v d) (acc @ [(k, v)]) xs = (acc @ [(k, v)]) @ xs"
    by (rule Cons.IH)
  then show ?case
    by (simp add: x update_fresh [OF fresh])
qed

lemma dict_of_items_distinct: "distinct (map fst xs) \<Longrightarrow> dict_of_items xs = xs"
  using foldl_update_distinct [of "[]" xs] by (simp add: dict_of_items_def)

section \<open>Probability extraction\<close>

lemma take_drop_nth:
  "s + m \<le> length xs \<Longrightarrow> take m (drop s xs) = map (\<lambda>c. xs ! (s + c)) [0..<m]"
  by (rule nth_equalityI) simp_all

lemma sum_list_upt: "(\<Sum>i\<leftarrow>[0..<m]. f i) = (\<Sum>i<m. f i)"
  by (simp add: interv_sum_list_conv_sum_set_nat atLeast0LessThan)

lemma sum_list_filter_upt:
  "(\<Sum>i\<leftarrow>filter P [0..<m]. f i) = (\<Sum>i \<in> {i. i < m \<and> P i}. f i)"
proof -
  have "(\<Sum>i\<leftarrow>filter P [0..<m]. f i) = sum f (set (filter P [0..<m]))"
    by (rule sum_list_distinct_conv_sum_set) simp
  also have "set (filter P [0..<m]) = {i. i < m \<and> P i}"
    by auto
  finally show ?thesis .
qed

lemma agrees_on_sub_index:
  assumes v: "valid_qubits n qs" and ne: "qs \<noteq> []" and i: "i < 2 ^ n" and r: "r < 2 ^ length qs"
  shows "agrees_on n qs i (format_b (length qs) r) \<longleftrightarrow> sub_index n qs i = r"
proof -
  have k: "0 < length qs"
    using ne by simp
  have n: "0 < n"
    using valid_qubits_le [OF v] k by (cases n) simp_all
  have "map (\<lambda>q. format_b n i ! q) qs = map (\<lambda>q. bit_char (unravel n i ! q)) qs"
    using v n i by (intro map_cong [OF refl]) (simp add: format_b_unravel valid_qubits_def)
  also have "\<dots> = map bit_char (bits_at n i qs)"
    by (simp add: bits_at_def)
  finally have "agrees_on n qs i (format_b (length qs) r) \<longleftrightarrow>
      map bit_char (bits_at n i qs) = map bit_char (unravel (length qs) r)"
    using k r by (simp add: agrees_on_def format_b_unravel)
  also have "\<dots> \<longleftrightarrow> bits_at n i qs = unravel (length qs) r"
    using bits_at_sub_lt [OF v] by (intro map_bit_char_eq) (auto dest: unravel_bits)
  also have "\<dots> \<longleftrightarrow> sub_index n qs i = r"
  proof
    assume "bits_at n i qs = unravel (length qs) r"
    then show "sub_index n qs i = r"
      using r by (simp add: sub_index_bits ravel_unravel_id)
  next
    assume "sub_index n qs i = r"
    then have "unravel (length qs) r = unravel (length (bits_at n i qs)) (ravel (bits_at n i qs))"
      by (simp add: sub_index_bits)
    also have "\<dots> = bits_at n i qs"
      using bits_at_sub_lt [OF v] by (rule unravel_ravel)
    finally show "bits_at n i qs = unravel (length qs) r" by simp
  qed
  finally show ?thesis .
qed

lemma spec_marginal_sub_index:
  assumes v: "valid_qubits n qs" and ne: "qs \<noteq> []" and r: "r < 2 ^ length qs"
  shows "spec_marginal n qs a (format_b (length qs) r) =
         (\<Sum>i \<in> {i. i < 2 ^ n \<and> sub_index n qs i = r}. (cmod (a ! i))\<^sup>2)"
proof -
  have "{i. i < 2 ^ n \<and> agrees_on n qs i (format_b (length qs) r)} =
        {i. i < 2 ^ n \<and> sub_index n qs i = r}"
    using agrees_on_sub_index [OF v ne _ r] by auto
  then show ?thesis
    by (simp add: spec_marginal_def sum_list_filter_upt)
qed

lemma source_pair_parts:
  assumes v: "valid_qubits n qs" and r: "r < 2 ^ length qs" and c: "c < 2 ^ (n - length qs)"
  defines "i \<equiv> source_index n (permutation_of n qs) (r * 2 ^ (n - length qs) + c)"
  shows "i < 2 ^ n" and "sub_index n qs i = r" and "rest_index n qs i = c"
proof -
  let ?p = "permutation_of n qs" and ?m = "2 ^ (n - length qs) :: nat"
  have ax: "is_axes n ?p"
    using v by (rule permutation_axes)
  show "i < 2 ^ n"
    unfolding i_def using ax by (rule source_lt)
  have "ravel (bits_at n i ?p) = r * ?m + c"
    unfolding i_def using ax pair_lt [OF v r c] by (rule target_source)
  then have eq: "sub_index n qs i * ?m + rest_index n qs i = r * ?m + c"
    by (simp only: target_split [OF v])
  have "(sub_index n qs i * ?m + rest_index n qs i) div ?m = (r * ?m + c) div ?m"
    by (simp only: eq)
  then show "sub_index n qs i = r"
    using rest_index_lt [OF v, of i] c by simp
  have "(sub_index n qs i * ?m + rest_index n qs i) mod ?m = (r * ?m + c) mod ?m"
    by (simp only: eq)
  then show "rest_index n qs i = c"
    using rest_index_lt [OF v, of i] c by simp
qed

lemma source_of_parts:
  assumes v: "valid_qubits n qs" and i: "i < 2 ^ n"
  shows "source_index n (permutation_of n qs)
           (sub_index n qs i * 2 ^ (n - length qs) + rest_index n qs i) = i"
  using source_target [OF permutation_axes [OF v] i] by (simp only: target_split [OF v])

lemma sum_over_rest:
  assumes v: "valid_qubits n qs" and r: "r < 2 ^ length qs"
  shows "(\<Sum>c<2 ^ (n - length qs).
            f (source_index n (permutation_of n qs) (r * 2 ^ (n - length qs) + c))) =
         (\<Sum>i \<in> {i. i < 2 ^ n \<and> sub_index n qs i = r}. f i)"
proof -
  let ?m = "2 ^ (n - length qs) :: nat"
  let ?src = "\<lambda>c. source_index n (permutation_of n qs) (r * ?m + c)"
  show "(\<Sum>c<?m. f (?src c)) = (\<Sum>i \<in> {i. i < 2 ^ n \<and> sub_index n qs i = r}. f i)"
  proof (rule sum.reindex_bij_witness [where i = "rest_index n qs" and j = ?src])
    show "rest_index n qs (?src c) = c" if "c \<in> {..<?m}" for c
      using that source_pair_parts(3) [OF v r, of c] by simp
    show "?src c \<in> {i. i < 2 ^ n \<and> sub_index n qs i = r}" if "c \<in> {..<?m}" for c
      using that source_pair_parts(1,2) [OF v r, of c] by simp
    show "?src (rest_index n qs i) = i" if "i \<in> {i. i < 2 ^ n \<and> sub_index n qs i = r}" for i
      using that source_of_parts [OF v, of i] by auto
    show "rest_index n qs i \<in> {..<?m}" if "i \<in> {i. i < 2 ^ n \<and> sub_index n qs i = r}" for i
      using rest_index_lt [OF v, of i] by simp
    show "f (?src c) = f (?src c)" if "c \<in> {..<?m}" for c
      by (rule refl)
  qed
qed

lemma marginal_row:
  assumes v: "valid_qubits n qs" and r: "r < 2 ^ length qs"
  shows "(\<Sum>x\<leftarrow>take (2 ^ (n - length qs))
                 (drop (r * 2 ^ (n - length qs)) (np_transpose n a (permutation_of n qs))).
            (cmod x)\<^sup>2) =
         (\<Sum>i \<in> {i. i < 2 ^ n \<and> sub_index n qs i = r}. (cmod (a ! i))\<^sup>2)"
proof -
  let ?m = "2 ^ (n - length qs) :: nat" and ?x = "np_transpose n a (permutation_of n qs)"
  have le: "r * ?m + ?m \<le> length ?x"
  proof -
    have "r * ?m + ?m = (r + 1) * ?m" by simp
    also have "\<dots> \<le> 2 ^ length qs * ?m"
      using r by (intro mult_le_mono1) simp
    finally show ?thesis
      by (simp only: pow_split [OF v] length_np_transpose)
  qed
  have "(\<Sum>x\<leftarrow>take ?m (drop (r * ?m) ?x). (cmod x)\<^sup>2) = (\<Sum>c\<leftarrow>[0..<?m]. (cmod (?x ! (r * ?m + c)))\<^sup>2)"
    by (simp only: take_drop_nth [OF le] map_map o_def)
  also have "\<dots> = (\<Sum>c<?m. (cmod (?x ! (r * ?m + c)))\<^sup>2)"
    by (rule sum_list_upt)
  also have "\<dots> = (\<Sum>c<?m. (cmod (a ! source_index n (permutation_of n qs) (r * ?m + c)))\<^sup>2)"
  proof (rule sum.cong [OF refl])
    fix c assume "c \<in> {..<?m}"
    then have "r * ?m + c < 2 ^ n"
      using pair_lt [OF v r] by simp
    then show "(cmod (?x ! (r * ?m + c)))\<^sup>2 =
        (cmod (a ! source_index n (permutation_of n qs) (r * ?m + c)))\<^sup>2"
      by (simp only: np_transpose_nth)
  qed
  also have "\<dots> = (\<Sum>i \<in> {i. i < 2 ^ n \<and> sub_index n qs i = r}. (cmod (a ! i))\<^sup>2)"
    using v r by (rule sum_over_rest)
  finally show ?thesis .
qed

lemma zip_map_same: "zip (map f xs) (map g xs) = map (\<lambda>x. (f x, g x)) xs"
  by (induction xs) simp_all

lemma distribution_from_probabilities_map:
  assumes "0 < k"
  shows "distribution_from_probabilities (map g [0..<2 ^ k]) k =
         map (\<lambda>r. (format_b k r, g r)) [0..<2 ^ k]"
proof -
  have "distinct (map fst (map (\<lambda>r. (format_b k r, g r)) [0..<2 ^ k]))"
    using distinct_format_b [OF assms] by (simp add: o_def)
  then show ?thesis
    by (simp add: distribution_from_probabilities_def zip_map_same dict_of_items_distinct)
qed

lemma probabilities_valid:
  assumes v: "valid_qubits (num_qubits c) qs" and ne: "qs \<noteq> []"
  shows "probabilities c (Some (map int qs)) =
         Inr (map (\<lambda>r. (format_b (length qs) r,
                          \<Sum>i \<in> {i. i < 2 ^ num_qubits c \<and> sub_index (num_qubits c) qs i = r}.
                            (cmod (state c ! i))\<^sup>2))
                  [0..<2 ^ length qs])"
proof -
  let ?n = "num_qubits c" and ?k = "length qs"
  let ?row = "\<lambda>r. \<Sum>x\<leftarrow>take (2 ^ (?n - ?k))
                       (drop (r * 2 ^ (?n - ?k)) (np_transpose ?n (state c) (permutation_of ?n qs))).
                    (cmod x)\<^sup>2"
  have k: "0 < ?k"
    using ne by simp
  have "probabilities c (Some (map int qs)) =
        Inr (distribution_from_probabilities (map ?row [0..<2 ^ ?k]) ?k)"
    using ne by (simp add: probabilities_def normalise_valid [OF v] Let_def)
  also have "\<dots> = Inr (map (\<lambda>r. (format_b ?k r, ?row r)) [0..<2 ^ ?k])"
    by (simp only: distribution_from_probabilities_map [OF k])
  also have "map (\<lambda>r. (format_b ?k r, ?row r)) [0..<2 ^ ?k] =
      map (\<lambda>r. (format_b ?k r,
                 \<Sum>i \<in> {i. i < 2 ^ ?n \<and> sub_index ?n qs i = r}. (cmod (state c ! i))\<^sup>2))
          [0..<2 ^ ?k]"
    by (rule map_cong [OF refl]) (simp add: marginal_row [OF v])
  finally show ?thesis .
qed

lemma probabilities_spec_marginal:
  assumes v: "valid_qubits (num_qubits c) qs" and ne: "qs \<noteq> []"
  shows "probabilities c (Some (map int qs)) =
         Inr (map (\<lambda>r. (format_b (length qs) r,
                          spec_marginal (num_qubits c) qs (state c) (format_b (length qs) r)))
                  [0..<2 ^ length qs])"
proof -
  have "map (\<lambda>r. (format_b (length qs) r,
                   \<Sum>i \<in> {i. i < 2 ^ num_qubits c \<and> sub_index (num_qubits c) qs i = r}.
                     (cmod (state c ! i))\<^sup>2)) [0..<2 ^ length qs] =
        map (\<lambda>r. (format_b (length qs) r,
                   spec_marginal (num_qubits c) qs (state c) (format_b (length qs) r)))
            [0..<2 ^ length qs]"
    by (rule map_cong [OF refl]) (simp add: spec_marginal_sub_index [OF v ne])
  then show ?thesis
    by (simp only: probabilities_valid [OF v ne])
qed

lemma valid_all: "valid_qubits n [0..<n]"
  by (simp add: valid_qubits_def)

lemma sub_index_all: "i < 2 ^ n \<Longrightarrow> sub_index n [0..<n] i = i"
proof -
  assume i: "i < 2 ^ n"
  have "map (\<lambda>q. unravel n i ! q) [0..<n] = unravel n i"
    using map_nth [of "unravel n i"] by simp
  then show ?thesis
    using i by (simp add: sub_index_def ravel_unravel_id)
qed

lemma probabilities_cong:
  "normalise_qubits c q1 = normalise_qubits c q2 \<Longrightarrow> probabilities c q1 = probabilities c q2"
  by (simp add: probabilities_def)

lemma normalise_None: "normalise_qubits c None = Inr [0..<num_qubits c]"
  by (simp add: normalise_qubits_def)

lemma probabilities_None_eq:
  "probabilities c None = probabilities c (Some (map int [0..<num_qubits c]))"
  by (rule probabilities_cong) (simp only: normalise_None normalise_valid [OF valid_all])

lemma probabilities_all:
  assumes "wf_circuit c"
  shows "probabilities c None =
         Inr (map (\<lambda>i. (format_b (num_qubits c) i, (cmod (state c ! i))\<^sup>2)) [0..<2 ^ num_qubits c])"
proof -
  let ?n = "num_qubits c"
  have ne: "[0..<?n] \<noteq> []"
    using assms by (simp add: wf_circuit_def)
  have "map (\<lambda>r. (format_b ?n r,
                   \<Sum>i \<in> {i. i < 2 ^ ?n \<and> sub_index ?n [0..<?n] i = r}. (cmod (state c ! i))\<^sup>2))
            [0..<2 ^ ?n] =
        map (\<lambda>i. (format_b ?n i, (cmod (state c ! i))\<^sup>2)) [0..<2 ^ ?n]"
  proof (rule map_cong [OF refl])
    fix r assume "r \<in> set [0..<2 ^ ?n]"
    then have r: "r < 2 ^ ?n" by simp
    have "{i. i < 2 ^ ?n \<and> sub_index ?n [0..<?n] i = r} = {r}"
      using r by (auto simp: sub_index_all)
    then show "(format_b ?n r,
                \<Sum>i \<in> {i. i < 2 ^ ?n \<and> sub_index ?n [0..<?n] i = r}. (cmod (state c ! i))\<^sup>2) =
               (format_b ?n r, (cmod (state c ! r))\<^sup>2)"
      by simp
  qed
  then show ?thesis
    using probabilities_valid [OF valid_all ne] by (simp add: probabilities_None_eq)
qed

lemma probabilities_empty:
  assumes "wf_circuit c"
  shows "probabilities c (Some []) =
         Inr (map (\<lambda>i. (format_b (num_qubits c) i, (cmod (state c ! i))\<^sup>2)) [0..<2 ^ num_qubits c])"
proof -
  let ?n = "num_qubits c"
  have n: "0 < ?n" and len: "length (state c) = 2 ^ ?n"
    using assms by (simp_all add: wf_circuit_def)
  have "map (\<lambda>(index, prob). (format_b ?n index, prob))
          (enumerate 0 (map (\<lambda>a. (cmod a)\<^sup>2) (state c))) =
        map (\<lambda>i. (format_b ?n i, (cmod (state c ! i))\<^sup>2)) [0..<2 ^ ?n]"
    by (rule nth_equalityI) (simp_all add: len nth_enumerate_eq)
  moreover have "distinct (map fst (map (\<lambda>i. (format_b ?n i, (cmod (state c ! i))\<^sup>2)) [0..<2 ^ ?n]))"
    using distinct_format_b [OF n] by (simp add: o_def)
  ultimately show ?thesis
    by (simp add: probabilities_def normalise_qubits_def dict_of_items_distinct)
qed

lemma spec_marginal_2_1:
  "spec_marginal 2 [1] [a, b, c, d] ''0'' = (cmod a)\<^sup>2 + (cmod c)\<^sup>2"
  "spec_marginal 2 [1] [a, b, c, d] ''1'' = (cmod b)\<^sup>2 + (cmod d)\<^sup>2"
  by (simp_all add: spec_marginal_def agrees_on_def small_eval format_b_def bin_digits.simps
      bit_char_def)

lemma spec_marginal_2_10:
  "spec_marginal 2 [1, 0] [a, b, c, d] ''01'' = (cmod c)\<^sup>2"
  by (simp_all add: spec_marginal_def agrees_on_def small_eval format_b_def bin_digits.simps
      bit_char_def)

text \<open>
  Claim C2 (probability extraction). For a non-empty tuple \<open>qs\<close> of distinct in-range
  qubits, \<^verbatim>\<open>probabilities\<close> returns one entry per bit string of length \<open>k\<close> over
  \<open>0\<close> and \<open>1\<close>, each exactly once, where character \<open>t\<close> of a key is the bit of the
  \<open>t\<close>-th requested qubit, and the value at a key is the sum of the squared magnitudes
  of the amplitudes of the basis states that agree with the key on the requested
  qubits. With the qubits omitted the result is the full-register distribution, keyed
  by the bit strings of the basis states with qubit 0 first.
\<close>

theorem probabilities_marginal_distribution:
  assumes "wf_circuit c"
  shows "(valid_qubits (num_qubits c) qs \<and> qs \<noteq> [] \<longrightarrow>
            probabilities c (Some (map int qs)) =
              Inr (map (\<lambda>r. (format_b (length qs) r,
                               spec_marginal (num_qubits c) qs (state c) (format_b (length qs) r)))
                       [0..<2 ^ length qs]) \<and>
            distinct (map (format_b (length qs)) [0..<2 ^ length qs]) \<and>
            format_b (length qs) ` {..<2 ^ length qs} =
              {s. length s = length qs \<and> set s \<subseteq> {CHR ''0'', CHR ''1''}}) \<and>
         probabilities c None =
           Inr (map (\<lambda>i. (format_b (num_qubits c) i, (cmod (state c ! i))\<^sup>2))
                    [0..<2 ^ num_qubits c])"
proof (intro conjI impI)
  assume a: "valid_qubits (num_qubits c) qs \<and> qs \<noteq> []"
  then have v: "valid_qubits (num_qubits c) qs" and ne: "qs \<noteq> []" and k: "0 < length qs"
    by simp_all
  show "probabilities c (Some (map int qs)) =
      Inr (map (\<lambda>r. (format_b (length qs) r,
                       spec_marginal (num_qubits c) qs (state c) (format_b (length qs) r)))
               [0..<2 ^ length qs])"
    using v ne by (rule probabilities_spec_marginal)
  show "distinct (map (format_b (length qs)) [0..<2 ^ length qs])"
    using k by (rule distinct_format_b)
  show "format_b (length qs) ` {..<2 ^ length qs} =
      {s. length s = length qs \<and> set s \<subseteq> {CHR ''0'', CHR ''1''}}"
    using k by (rule bit_strings_are_formats)
next
  show "probabilities c None =
      Inr (map (\<lambda>i. (format_b (num_qubits c) i, (cmod (state c ! i))\<^sup>2)) [0..<2 ^ num_qubits c])"
    using assms by (rule probabilities_all)
qed

theorem probabilities_marginal_distribution_witness:
  "wf_circuit \<lparr>num_qubits = 2, state = [1, 0, 0, 0]\<rparr> \<and> valid_qubits 2 [1] \<and>
   probabilities \<lparr>num_qubits = 2, state = [1, 0, 0, 0]\<rparr> (Some [1]) =
     Inr [(''0'', spec_marginal 2 [1] [1, 0, 0, 0] ''0''),
          (''1'', spec_marginal 2 [1] [1, 0, 0, 0] ''1'')] \<and>
   spec_marginal 2 [1] [1, 0, 0, 0] ''0'' = 1 \<and>
   spec_marginal 2 [1] [1, 0, 0, 0] ''1'' = 0 \<and>
   probabilities \<lparr>num_qubits = 2, state = [1, 0, 0, 0]\<rparr> None =
     Inr [(''00'', 1), (''01'', 0), (''10'', 0), (''11'', 0)]"
  using probabilities_marginal_distribution [of "\<lparr>num_qubits = 2, state = [1, 0, 0, 0]\<rparr>" "[1]"]
    spec_marginal_2_1 [of 1 0 0 0]
  by (simp add: wf_circuit_def valid_qubits_def small_eval format_b_def
      bin_digits.simps bit_char_def)

section \<open>Collapse\<close>

lemma foldl_char_bit:
  "\<forall>b \<in> set bs. b < 2 \<Longrightarrow>
   foldl (\<lambda>acc ch. 2 * acc + char_bit ch) acc (map bit_char bs) = acc * 2 ^ length bs + ravel bs"
proof (induction bs arbitrary: acc)
  case Nil
  show ?case by simp
next
  case (Cons b bs)
  then have b: "char_bit (bit_char b) = b"
    by (auto simp: char_bit_def bit_char_def)
  show ?case
    using Cons by (simp add: b algebra_simps)
qed

lemma int_base2_format: "0 < w \<Longrightarrow> i < 2 ^ w \<Longrightarrow> int_base2 (format_b w i) = Inr i"
proof -
  assume w: "0 < w" and i: "i < 2 ^ w"
  have f: "format_b w i = map bit_char (unravel w i)"
    using w i by (rule format_b_unravel)
  have bits: "\<forall>b \<in> set (unravel w i). b < 2"
    by (auto dest: unravel_bits)
  have "length (format_b w i) = w"
    by (simp add: f)
  then have "format_b w i \<noteq> []"
    using w by auto
  moreover have "\<forall>ch \<in> set (format_b w i). ch = CHR ''0'' \<or> ch = CHR ''1''"
    by (auto simp: f bit_char_def)
  ultimately have ok: "\<not> (format_b w i = [] \<or>
      (\<exists>ch \<in> set (format_b w i). ch \<noteq> CHR ''0'' \<and> ch \<noteq> CHR ''1''))"
    by blast
  have "foldl (\<lambda>acc ch. 2 * acc + char_bit ch) 0 (format_b w i) = ravel (unravel w i)"
    using foldl_char_bit [OF bits, of 0] by (simp add: f)
  then show ?thesis
    using ok i unfolding int_base2_def by (simp add: ravel_unravel_id)
qed

lemma sum_reindex_axes:
  assumes "is_axes n p"
  shows "(\<Sum>j<2 ^ n. g j) = (\<Sum>i<2 ^ n. g (ravel (bits_at n i p)))"
proof (rule sum.reindex_bij_witness [where i = "\<lambda>i. ravel (bits_at n i p)"
      and j = "source_index n p"])
  show "ravel (bits_at n (source_index n p j) p) = j" if "j \<in> {..<2 ^ n}" for j
    using that target_source [OF assms, of j] by simp
  show "source_index n p j \<in> {..<2 ^ n}" if "j \<in> {..<2 ^ n}" for j
    using source_lt [OF assms, of j] by simp
  show "source_index n p (ravel (bits_at n i p)) = i" if "i \<in> {..<2 ^ n}" for i
    using that source_target [OF assms, of i] by simp
  show "ravel (bits_at n i p) \<in> {..<2 ^ n}" if "i \<in> {..<2 ^ n}" for i
    using target_lt [OF assms, of i] by simp
  show "g (ravel (bits_at n (source_index n p j) p)) = g j" if "j \<in> {..<2 ^ n}" for j
    using that target_source [OF assms, of j] by simp
qed

lemma sum_restrict: "finite A \<Longrightarrow> (\<Sum>i \<in> A. if P i then f i else 0) = (\<Sum>i \<in> {i \<in> A. P i}. f i)"
  by (simp add: sum.inter_filter)

text \<open>The matrix that keeps row \<open>r\<close> of the transposed state and zeroes the others.\<close>

lemma collapsed_norm:
  assumes v: "valid_qubits n qs"
  shows "(\<Sum>x\<leftarrow>map (\<lambda>j. if j div 2 ^ (n - length qs) = r
                        then np_transpose n a (permutation_of n qs) ! j else 0) [0..<2 ^ n].
            (cmod x)\<^sup>2) =
         (\<Sum>i \<in> {i. i < 2 ^ n \<and> sub_index n qs i = r}. (cmod (a ! i))\<^sup>2)"
proof -
  let ?m = "2 ^ (n - length qs) :: nat" and ?p = "permutation_of n qs"
  let ?g = "\<lambda>j. if j div ?m = r then (cmod (a ! source_index n ?p j))\<^sup>2 else 0"
  have ax: "is_axes n ?p"
    using v by (rule permutation_axes)
  have "(\<Sum>x\<leftarrow>map (\<lambda>j. if j div ?m = r then np_transpose n a ?p ! j else 0) [0..<2 ^ n]. (cmod x)\<^sup>2)
      = (\<Sum>j\<leftarrow>[0..<2 ^ n]. (cmod (if j div ?m = r then np_transpose n a ?p ! j else 0))\<^sup>2)"
    by (simp only: map_map o_def)
  also have "\<dots> = (\<Sum>j<2 ^ n. (cmod (if j div ?m = r then np_transpose n a ?p ! j else 0))\<^sup>2)"
    by (rule sum_list_upt)
  also have "\<dots> = (\<Sum>j<2 ^ n. ?g j)"
    by (rule sum.cong [OF refl]) (simp add: np_transpose_nth)
  also have "\<dots> = (\<Sum>i<2 ^ n. ?g (ravel (bits_at n i ?p)))"
    using ax by (rule sum_reindex_axes)
  also have "\<dots> = (\<Sum>i<2 ^ n. if sub_index n qs i = r then (cmod (a ! i))\<^sup>2 else 0)"
    by (rule sum.cong [OF refl]) (simp add: target_div [OF v] source_target [OF ax])
  also have "\<dots> = (\<Sum>i \<in> {i \<in> {..<2 ^ n}. sub_index n qs i = r}. (cmod (a ! i))\<^sup>2)"
    by (rule sum_restrict) simp
  also have "{i \<in> {..<2 ^ n}. sub_index n qs i = r} = {i. i < 2 ^ n \<and> sub_index n qs i = r}"
    by auto
  finally show ?thesis .
qed

lemma collapsed_restored:
  assumes v: "valid_qubits n qs"
  shows "np_transpose n
           (map (\<lambda>j. f (if j div 2 ^ (n - length qs) = r
                        then np_transpose n a (permutation_of n qs) ! j else 0)) [0..<2 ^ n])
           (argsort (permutation_of n qs)) =
         map (\<lambda>i. f (if sub_index n qs i = r then a ! i else 0)) [0..<2 ^ n]"
proof -
  let ?m = "2 ^ (n - length qs) :: nat" and ?p = "permutation_of n qs"
  have ax: "is_axes n ?p"
    using v by (rule permutation_axes)
  show ?thesis
    unfolding np_transpose_def [of n _ "argsort ?p"]
  proof (rule map_cong [OF refl])
    fix i assume "i \<in> set [0..<2 ^ n]"
    then have i: "i < 2 ^ n" by simp
    let ?t = "ravel (bits_at n i ?p)"
    have t: "?t < 2 ^ n"
      using ax by (rule target_lt)
    have "map (\<lambda>j. f (if j div ?m = r then np_transpose n a ?p ! j else 0)) [0..<2 ^ n] ! ?t =
          f (if ?t div ?m = r then np_transpose n a ?p ! ?t else 0)"
      using t by simp
    also have "\<dots> = f (if sub_index n qs i = r then a ! i else 0)"
      using t by (simp add: target_div [OF v] np_transpose_nth source_target [OF ax i])
    finally show "map (\<lambda>j. f (if j div ?m = r then np_transpose n a ?p ! j else 0)) [0..<2 ^ n] !
          source_index n (argsort ?p) i = f (if sub_index n qs i = r then a ! i else 0)"
      by (simp only: source_index_argsort [OF ax])
  qed
qed

lemma marginal_at_nonneg: "0 \<le> marginal_at n qs a r"
  by (simp add: marginal_at_def sum_nonneg)

lemma marginal_at_zero:
  assumes "marginal_at n qs a r = 0" and "i < 2 ^ n" and "sub_index n qs i = r"
  shows "a ! i = 0"
proof -
  have "finite {i. i < 2 ^ n \<and> sub_index n qs i = r}"
    by simp
  then have "\<forall>i \<in> {i. i < 2 ^ n \<and> sub_index n qs i = r}. (cmod (a ! i))\<^sup>2 = 0"
    using assms(1) unfolding marginal_at_def by (subst (asm) sum_nonneg_eq_0_iff) simp_all
  then show ?thesis
    using assms(2,3) by simp
qed

lemma collapse_state_valid:
  assumes v: "valid_qubits (num_qubits c) qs" and ne: "qs \<noteq> []" and r: "r < 2 ^ length qs"
  shows "collapse_state c qs (format_b (length qs) r) =
         Inr (c\<lparr>state :=
               map (\<lambda>i. (if 0 < marginal_at (num_qubits c) qs (state c) r
                          then (\<lambda>x. x / complex_of_real (sqrt (marginal_at (num_qubits c) qs (state c) r)))
                          else (\<lambda>x. x))
                         (if sub_index (num_qubits c) qs i = r then state c ! i else 0))
                   [0..<2 ^ num_qubits c]\<rparr>)"
proof -
  let ?n = "num_qubits c" and ?k = "length qs" and ?a = "state c"
  let ?N = "marginal_at ?n qs ?a r"
  let ?F = "if 0 < ?N then (\<lambda>x. x / complex_of_real (sqrt ?N)) else (\<lambda>x. x)"
  let ?collapsed = "map (\<lambda>j. if j div 2 ^ (?n - ?k) = r
                      then np_transpose ?n ?a (permutation_of ?n qs) ! j else 0) [0..<2 ^ ?n]"
  have k: "0 < ?k"
    using ne by simp
  have norm: "(\<Sum>x\<leftarrow>?collapsed. (cmod x)\<^sup>2) = ?N"
    unfolding marginal_at_def using v by (rule collapsed_norm)
  have c': "(if 0 < sqrt ?N then map (\<lambda>x. x / complex_of_real (sqrt ?N)) ?collapsed else ?collapsed)
      = map (\<lambda>j. ?F (if j div 2 ^ (?n - ?k) = r
                      then np_transpose ?n ?a (permutation_of ?n qs) ! j else 0)) [0..<2 ^ ?n]"
    by (simp add: o_def)
  have "collapse_state c qs (format_b ?k r) =
      Inr (c\<lparr>state := np_transpose ?n
             (if 0 < sqrt ?N then map (\<lambda>x. x / complex_of_real (sqrt ?N)) ?collapsed else ?collapsed)
             (argsort (permutation_of ?n qs))\<rparr>)"
    using ne r
    by (simp add: collapse_state_def int_base2_format [OF k r] Let_def norm del: map_map)
  also have "\<dots> = Inr (c\<lparr>state :=
      map (\<lambda>i. ?F (if sub_index ?n qs i = r then ?a ! i else 0)) [0..<2 ^ ?n]\<rparr>)"
    by (simp only: c' collapsed_restored [OF v])
  finally show ?thesis .
qed

lemma collapse_state_positive:
  assumes v: "valid_qubits (num_qubits c) qs" and ne: "qs \<noteq> []" and r: "r < 2 ^ length qs"
    and pos: "0 < marginal_at (num_qubits c) qs (state c) r"
  shows "collapse_state c qs (format_b (length qs) r) =
         Inr (c\<lparr>state :=
               map (\<lambda>i. if sub_index (num_qubits c) qs i = r
                         then state c ! i / complex_of_real (sqrt (marginal_at (num_qubits c) qs (state c) r))
                         else 0)
                   [0..<2 ^ num_qubits c]\<rparr>)"
proof -
  have "map (\<lambda>i. (if 0 < marginal_at (num_qubits c) qs (state c) r
                    then (\<lambda>x. x / complex_of_real (sqrt (marginal_at (num_qubits c) qs (state c) r)))
                    else (\<lambda>x. x))
                   (if sub_index (num_qubits c) qs i = r then state c ! i else 0))
          [0..<2 ^ num_qubits c] =
        map (\<lambda>i. if sub_index (num_qubits c) qs i = r
                  then state c ! i / complex_of_real (sqrt (marginal_at (num_qubits c) qs (state c) r))
                  else 0)
          [0..<2 ^ num_qubits c]"
    using pos by (intro map_cong [OF refl]) simp
  then show ?thesis
    by (simp only: collapse_state_valid [OF v ne r])
qed

lemma collapse_state_zero:
  assumes v: "valid_qubits (num_qubits c) qs" and ne: "qs \<noteq> []" and r: "r < 2 ^ length qs"
    and z: "marginal_at (num_qubits c) qs (state c) r = 0"
  shows "collapse_state c qs (format_b (length qs) r) =
         Inr (c\<lparr>state := replicate (2 ^ num_qubits c) 0\<rparr>)"
proof -
  have "map (\<lambda>i. (if 0 < marginal_at (num_qubits c) qs (state c) r
                    then (\<lambda>x. x / complex_of_real (sqrt (marginal_at (num_qubits c) qs (state c) r)))
                    else (\<lambda>x. x))
                   (if sub_index (num_qubits c) qs i = r then state c ! i else 0))
          [0..<2 ^ num_qubits c] =
        map (\<lambda>i. 0) [0..<2 ^ num_qubits c]"
    using z by (intro map_cong [OF refl]) (auto simp: marginal_at_zero [OF z])
  also have "\<dots> = replicate (2 ^ num_qubits c) 0"
    by (simp add: map_replicate_const)
  finally show ?thesis
    by (simp only: collapse_state_valid [OF v ne r])
qed

lemma norm_sq_sum: "norm_sq a = (\<Sum>i<length a. (cmod (a ! i))\<^sup>2)"
proof -
  have "norm_sq a = (\<Sum>i\<leftarrow>[0..<length a]. (cmod (a ! i))\<^sup>2)"
    unfolding norm_sq_def by (subst (1) map_nth [of a, symmetric]) (simp only: map_map o_def)
  then show ?thesis
    by (simp only: sum_list_upt)
qed

lemma length_collapsed_onto [simp]: "length (collapsed_onto n qs a r) = 2 ^ n"
  by (simp add: collapsed_onto_def)

lemma collapsed_onto_nth:
  "i < 2 ^ n \<Longrightarrow> collapsed_onto n qs a r ! i =
     (if sub_index n qs i = r then a ! i / complex_of_real (sqrt (marginal_at n qs a r)) else 0)"
  by (simp add: collapsed_onto_def)

lemma cmod_scaled_sq:
  assumes "0 < N"
  shows "(cmod (x / complex_of_real (sqrt N)))\<^sup>2 = (cmod x)\<^sup>2 / N"
  using assms by (simp add: norm_divide power_divide)

lemma marginal_at_collapsed:
  assumes pos: "0 < marginal_at n qs a r"
  shows "marginal_at n qs (collapsed_onto n qs a r) r' = (if r' = r then 1 else 0)"
proof (cases "r' = r")
  case True
  have "marginal_at n qs (collapsed_onto n qs a r) r =
      (\<Sum>i \<in> {i. i < 2 ^ n \<and> sub_index n qs i = r}. (cmod (a ! i))\<^sup>2 / marginal_at n qs a r)"
    unfolding marginal_at_def [of n qs "collapsed_onto n qs a r"]
    by (rule sum.cong [OF refl]) (simp add: collapsed_onto_nth cmod_scaled_sq [OF pos])
  also have "\<dots> = marginal_at n qs a r / marginal_at n qs a r"
    by (simp only: marginal_at_def [of n qs a] sum_divide_distrib)
  also have "\<dots> = 1"
    using pos by simp
  finally show ?thesis
    using True by simp
next
  case False
  have "marginal_at n qs (collapsed_onto n qs a r) r' =
      (\<Sum>i \<in> {i. i < 2 ^ n \<and> sub_index n qs i = r'}. 0)"
    unfolding marginal_at_def [of n qs "collapsed_onto n qs a r"]
    using False by (intro sum.cong [OF refl]) (simp add: collapsed_onto_nth)
  then show ?thesis
    using False by simp
qed

lemma norm_sq_collapsed:
  assumes pos: "0 < marginal_at n qs a r"
  shows "norm_sq (collapsed_onto n qs a r) = 1"
proof -
  have "norm_sq (collapsed_onto n qs a r) =
      (\<Sum>i<2 ^ n. if sub_index n qs i = r then (cmod (a ! i))\<^sup>2 / marginal_at n qs a r else 0)"
    unfolding norm_sq_sum length_collapsed_onto
    by (rule sum.cong [OF refl]) (simp add: collapsed_onto_nth cmod_scaled_sq [OF pos])
  also have "\<dots> = (\<Sum>i \<in> {i \<in> {..<2 ^ n}. sub_index n qs i = r}.
      (cmod (a ! i))\<^sup>2 / marginal_at n qs a r)"
    by (rule sum_restrict) simp
  also have "{i \<in> {..<2 ^ n}. sub_index n qs i = r} = {i. i < 2 ^ n \<and> sub_index n qs i = r}"
    by auto
  also have "(\<Sum>i \<in> {i. i < 2 ^ n \<and> sub_index n qs i = r}. (cmod (a ! i))\<^sup>2 / marginal_at n qs a r)
      = marginal_at n qs a r / marginal_at n qs a r"
    by (simp only: marginal_at_def [of n qs a] sum_divide_distrib)
  also have "\<dots> = 1"
    using pos by simp
  finally show ?thesis .
qed

lemma collapse_state_onto:
  assumes v: "valid_qubits (num_qubits c) qs" and ne: "qs \<noteq> []" and r: "r < 2 ^ length qs"
    and pos: "0 < marginal_at (num_qubits c) qs (state c) r"
  shows "collapse_state c qs (format_b (length qs) r) =
         Inr (c\<lparr>state := collapsed_onto (num_qubits c) qs (state c) r\<rparr>)"
  unfolding collapsed_onto_def using v ne r pos by (rule collapse_state_positive)

lemma probabilities_marginal_at:
  assumes v: "valid_qubits (num_qubits c) qs" and ne: "qs \<noteq> []"
  shows "probabilities c (Some (map int qs)) =
         Inr (map (\<lambda>r. (format_b (length qs) r, marginal_at (num_qubits c) qs (state c) r))
                  [0..<2 ^ length qs])"
  unfolding marginal_at_def using v ne by (rule probabilities_valid)

lemma probabilities_after_collapse:
  assumes v: "valid_qubits (num_qubits c) qs" and ne: "qs \<noteq> []"
    and pos: "0 < marginal_at (num_qubits c) qs (state c) r"
  shows "probabilities (c\<lparr>state := collapsed_onto (num_qubits c) qs (state c) r\<rparr>)
           (Some (map int qs)) =
         Inr (map (\<lambda>r'. (format_b (length qs) r', if r' = r then 1 else 0)) [0..<2 ^ length qs])"
proof -
  let ?c' = "c\<lparr>state := collapsed_onto (num_qubits c) qs (state c) r\<rparr>"
  have v': "valid_qubits (num_qubits ?c') qs"
    using v by simp
  show ?thesis
    using probabilities_marginal_at [OF v' ne] by (simp add: marginal_at_collapsed [OF pos])
qed

section \<open>Measurement\<close>

subsection \<open>Sorted keys\<close>

lemma bit_char_less: "a < 2 \<Longrightarrow> b < 2 \<Longrightarrow> bit_char a < bit_char b \<longleftrightarrow> a < b"
  by (auto simp: bit_char_def less_char_def)

lemma unravel_less:
  "i < j \<Longrightarrow> j < 2 ^ w \<Longrightarrow> map bit_char (unravel w i) < map bit_char (unravel w j)"
proof (induction w arbitrary: i j)
  case 0
  then show ?case by simp
next
  case (Suc w)
  let ?hi = "i div 2 ^ w mod 2" and ?hj = "j div 2 ^ w mod 2"
  have j2: "j div 2 ^ w < 2"
    using Suc.prems(2) by (simp add: less_mult_imp_div_less mult.commute)
  have i2: "i div 2 ^ w < 2"
    using Suc.prems by (simp add: less_mult_imp_div_less mult.commute)
  have le: "i div 2 ^ w \<le> j div 2 ^ w"
    using Suc.prems(1) by (simp add: div_le_mono)
  show ?case
  proof (cases "i div 2 ^ w = j div 2 ^ w")
    case True
    have "i mod 2 ^ w < j mod 2 ^ w"
    proof -
      have "i div 2 ^ w * 2 ^ w + i mod 2 ^ w < j div 2 ^ w * 2 ^ w + j mod 2 ^ w"
        using Suc.prems(1) by (simp only: div_mult_mod_eq)
      then show ?thesis
        by (simp only: True nat_add_left_cancel_less)
    qed
    then have "map bit_char (unravel w (i mod 2 ^ w)) < map bit_char (unravel w (j mod 2 ^ w))"
      by (rule Suc.IH) simp
    then show ?thesis
      using True by (simp add: unravel_mod)
  next
    case False
    then have "i div 2 ^ w < j div 2 ^ w"
      using le by simp
    then have "bit_char ?hi < bit_char ?hj"
      using i2 j2 by (simp add: bit_char_less)
    then show ?thesis by simp
  qed
qed

lemma sorted_formats: "0 < w \<Longrightarrow> sorted (map (format_b w) [0..<2 ^ w])"
proof -
  assume w: "0 < w"
  have "format_b w i \<le> format_b w j" if "i < j" "j < 2 ^ w" for i j
  proof -
    have "i < 2 ^ w" using that by simp
    then show ?thesis
      using unravel_less [OF that] that w by (simp add: format_b_unravel less_imp_le)
  qed
  then show ?thesis
    by (simp add: sorted_iff_nth_mono_less)
qed

lemma sort_formats: "0 < w \<Longrightarrow> sort (map (format_b w) [0..<2 ^ w]) = map (format_b w) [0..<2 ^ w]"
  by (rule sorted_sort_id) (rule sorted_formats)

subsection \<open>Lookups and tallies\<close>

lemma map_of_graph:
  "distinct (map f xs) \<Longrightarrow> x \<in> set xs \<Longrightarrow> map_of (map (\<lambda>x. (f x, g x)) xs) (f x) = Some (g x)"
  by (rule map_of_is_SomeI) (auto simp: o_def)

lemma lookups_graph:
  assumes "distinct (map f xs)"
  shows "map (\<lambda>key. the (map_of (map (\<lambda>x. (f x, g x)) xs) key)) (map f xs) = map g xs"
  using assms by (simp add: map_of_graph o_def cong: map_cong)

lemma update_graph:
  "distinct keys \<Longrightarrow> key \<in> set keys \<Longrightarrow>
   AList.update key v (map (\<lambda>k. (k, f k)) keys) = map (\<lambda>k. (k, if k = key then v else f k)) keys"
proof (induction keys)
  case Nil
  then show ?case by simp
next
  case (Cons k keys)
  show ?case
  proof (cases "k = key")
    case True
    then have "key \<notin> set keys"
      using Cons.prems by simp
    then have "map (\<lambda>k. (k, if k = key then v else f k)) keys = map (\<lambda>k. (k, f k)) keys"
      by (intro map_cong [OF refl]) auto
    then show ?thesis
      using True by simp
  next
    case False
    then show ?thesis
      using Cons by simp
  qed
qed

lemma bump_graph:
  assumes "distinct keys" and "key \<in> set keys"
  shows "bump (map (\<lambda>k. (k, f k)) keys) key =
         map (\<lambda>k. (k, if k = key then f key + 1 else f k)) keys"
proof -
  have "map_of (map (\<lambda>k. (k, f k)) keys) key = Some (f key)"
    using assms map_of_graph [of "\<lambda>k. k" keys key f] by simp
  then show ?thesis
    using assms by (simp add: bump_def update_graph)
qed

lemma tally_graph:
  assumes "distinct keys" and "\<forall>x \<in> set outs. x < length keys"
  shows "foldl (\<lambda>d index. bump d (keys ! index)) (map (\<lambda>k. (k, f k)) keys) outs =
         map (\<lambda>k. (k, f k + int (count_list (map (\<lambda>x. keys ! x) outs) k))) keys"
  using assms(2)
proof (induction outs arbitrary: f)
  case Nil
  show ?case by simp
next
  case (Cons x outs)
  then have x: "keys ! x \<in> set keys" and rest: "\<forall>y \<in> set outs. y < length keys"
    by simp_all
  have "foldl (\<lambda>d index. bump d (keys ! index)) (map (\<lambda>k. (k, f k)) keys) (x # outs) =
        foldl (\<lambda>d index. bump d (keys ! index))
          (map (\<lambda>k. (k, if k = keys ! x then f (keys ! x) + 1 else f k)) keys) outs"
    by (simp add: bump_graph [OF assms(1) x])
  also have "\<dots> = map (\<lambda>k. (k, (if k = keys ! x then f (keys ! x) + 1 else f k) +
                               int (count_list (map (\<lambda>x. keys ! x) outs) k))) keys"
    using rest by (rule Cons.IH)
  also have "\<dots> = map (\<lambda>k. (k, f k + int (count_list (map (\<lambda>x. keys ! x) (x # outs)) k))) keys"
    by (rule map_cong [OF refl]) auto
  finally show ?case .
qed

lemma int_sum_list: "(\<Sum>k\<leftarrow>ks. int (g k)) = int (\<Sum>k\<leftarrow>ks. g k)"
  by (induction ks) simp_all

lemma tally_total:
  assumes "distinct keys" and "\<forall>x \<in> set outs. x < length keys"
  shows "(\<Sum>k\<leftarrow>keys. int (count_list (map (\<lambda>x. keys ! x) outs) k)) = int (length outs)"
proof -
  let ?drawn = "map (\<lambda>x. keys ! x) outs"
  have sub: "set ?drawn \<subseteq> set keys"
    using assms(2) by auto
  have "(\<Sum>k\<leftarrow>keys. count_list ?drawn k) = sum (count_list ?drawn) (set keys)"
    using assms(1) by (rule sum_list_distinct_conv_sum_set)
  also have "\<dots> = length ?drawn"
    using sub by (rule sum_count_set) simp
  finally have "(\<Sum>k\<leftarrow>keys. count_list ?drawn k) = length outs"
    by simp
  then show ?thesis
    by (simp only: int_sum_list)
qed

lemma fst_graph: "map fst (map (\<lambda>r. (f r, g r)) xs) = map f xs"
  by simp

lemma snd_graph: "map snd (map (\<lambda>r. (f r, g r)) xs) = map g xs"
  by simp

lemma not_isclose_0_1: "\<not> isclose 0 1"
  by (simp add: isclose_def)

lemma isclose_1_1: "isclose 1 1"
  by (simp add: isclose_def)

lemma measure_unfold:
  assumes q: "normalise_qubits c qubits = Inr qt"
    and d: "probabilities c (Some (map int qt)) = Inr (map (\<lambda>r. (format_b K r, P r)) [0..<2 ^ K])"
    and K: "0 < K" and shots: "0 < shots"
  shows "measure_qubits c qubits shots rng =
     (let keys = map (format_b K) [0..<2 ^ K];
          probs = map P [0..<2 ^ K];
          total = sum_list probs
      in if \<not> isclose total 1 \<and> total = 0 then Inl ValueError
         else (case rng (2 ^ K) (nat shots)
                      (if \<not> isclose total 1 then map (\<lambda>p. p / total) probs else probs) of
                 Inl e \<Rightarrow> Inl e
               | Inr outs \<Rightarrow>
                   (case collapse_state c qt (keys ! last outs) of
                      Inl e \<Rightarrow> Inl e
                    | Inr c' \<Rightarrow>
                        Inr (\<lparr>counts = foldl (\<lambda>d index. bump d (keys ! index))
                                          (map (\<lambda>key. (key, 0)) keys) outs\<rparr>, c'))))"
proof -
  have keys: "sort (map fst (map (\<lambda>r. (format_b K r, P r)) [0..<2 ^ K])) =
      map (format_b K) [0..<2 ^ K]"
    by (simp only: fst_graph sort_formats [OF K])
  have probs: "map (\<lambda>key. the (map_of (map (\<lambda>r. (format_b K r, P r)) [0..<2 ^ K]) key))
      (map (format_b K) [0..<2 ^ K]) = map P [0..<2 ^ K]"
    using distinct_format_b [OF K] by (rule lookups_graph)
  show ?thesis
    unfolding measure_qubits_def q d sum.case Let_def keys probs
    using shots by (simp add: not_isclose_0_1)
qed

lemma normalise_Inr_valid:
  assumes "normalise_qubits c qubits = Inr qt"
  shows "valid_qubits (num_qubits c) qt"
proof (cases qubits)
  case None
  then have "qt = [0..<num_qubits c]"
    using assms by (simp add: normalise_qubits_def)
  then show ?thesis
    by (simp add: valid_all)
next
  case (Some qs)
  have d: "distinct qs"
    using assms Some by (auto simp: normalise_qubits_def len_remdups_iff split: if_splits)
  have rng: "\<forall>q \<in> set qs. 0 \<le> q \<and> q < int (num_qubits c)"
    using assms Some by (auto simp: normalise_qubits_def len_remdups_iff split: if_splits)
  have qt: "qt = map nat qs"
    using assms Some by (auto simp: normalise_qubits_def len_remdups_iff split: if_splits)
  have "inj_on nat (set qs)"
  proof (rule inj_onI)
    fix x y assume "x \<in> set qs" "y \<in> set qs" "nat x = nat y"
    then show "x = y"
      using rng by (metis nat_eq_iff2)
  qed
  then have "distinct (map nat qs)"
    using d by (simp add: distinct_map)
  moreover have "\<forall>q \<in> set (map nat qs). q < num_qubits c"
    using rng by auto
  ultimately show ?thesis
    by (simp add: qt valid_qubits_def)
qed

lemma measured_axes_valid:
  "valid_qubits n qt \<Longrightarrow> valid_qubits n (measured_axes n qt)"
  by (simp add: measured_axes_def valid_all)

lemma measured_axes_nonempty: "0 < n \<Longrightarrow> measured_axes n qt \<noteq> []"
  by (simp add: measured_axes_def)

lemma marginal_at_all: "r < 2 ^ n \<Longrightarrow> marginal_at n [0..<n] a r = (cmod (a ! r))\<^sup>2"
proof -
  assume r: "r < 2 ^ n"
  have "{i. i < 2 ^ n \<and> sub_index n [0..<n] i = r} = {r}"
    using r by (auto simp: sub_index_all)
  then show ?thesis
    by (simp add: marginal_at_def)
qed

lemma measured_dist:
  assumes wf: "wf_circuit c" and v: "valid_qubits (num_qubits c) qt"
  shows "probabilities c (Some (map int qt)) =
         Inr (map (\<lambda>r. (format_b (length (measured_axes (num_qubits c) qt)) r,
                          marginal_at (num_qubits c) (measured_axes (num_qubits c) qt) (state c) r))
                  [0..<2 ^ length (measured_axes (num_qubits c) qt)])"
proof (cases "qt = []")
  case True
  have "map (\<lambda>i. (format_b (num_qubits c) i, (cmod (state c ! i))\<^sup>2)) [0..<2 ^ num_qubits c] =
        map (\<lambda>r. (format_b (num_qubits c) r,
                   marginal_at (num_qubits c) [0..<num_qubits c] (state c) r)) [0..<2 ^ num_qubits c]"
    by (rule map_cong [OF refl]) (simp add: marginal_at_all)
  then show ?thesis
    using probabilities_empty [OF wf] True by (simp add: measured_axes_def)
next
  case False
  then show ?thesis
    using probabilities_marginal_at [OF v False] by (simp add: measured_axes_def)
qed

lemma sum_marginal_at:
  assumes v: "valid_qubits n qs"
  shows "(\<Sum>r<2 ^ length qs. marginal_at n qs a r) = (\<Sum>i<2 ^ n. (cmod (a ! i))\<^sup>2)"
proof -
  have "(\<Sum>r \<in> {..<2 ^ length qs}. \<Sum>i \<in> {i \<in> {..<2 ^ n}. sub_index n qs i = r}. (cmod (a ! i))\<^sup>2)
      = (\<Sum>i<2 ^ n. (cmod (a ! i))\<^sup>2)"
    by (rule sum.group) (auto simp: sub_index_lt [OF v])
  moreover have "{i \<in> {..<2 ^ n}. sub_index n qs i = r} = {i. i < 2 ^ n \<and> sub_index n qs i = r}" for r
    by auto
  ultimately show ?thesis
    by (simp add: marginal_at_def)
qed

lemma total_marginal:
  assumes v: "valid_qubits n qs" and len: "length a = 2 ^ n"
  shows "sum_list (map (marginal_at n qs a) [0..<2 ^ length qs]) = norm_sq a"
  by (simp only: sum_list_upt sum_marginal_at [OF v] norm_sq_sum len)

lemma collapse_state_empty:
  assumes wf: "wf_circuit c" and r: "r < 2 ^ num_qubits c"
  shows "collapse_state c [] (format_b (num_qubits c) r) =
         Inr (c\<lparr>state := (replicate (2 ^ num_qubits c) 0)[r := 1]\<rparr>)"
proof -
  have n: "0 < num_qubits c" and len: "length (state c) = 2 ^ num_qubits c"
    using wf by (simp_all add: wf_circuit_def)
  show ?thesis
    using r by (simp add: collapse_state_def int_base2_format [OF n r] len)
qed

lemma basis_nth: "i < m \<Longrightarrow> (replicate m (0::complex))[r := 1] ! i = (if i = r then 1 else 0)"
  by (simp add: nth_list_update)

lemma norm_sq_basis:
  assumes "r < m"
  shows "norm_sq ((replicate m 0)[r := 1]) = 1"
proof -
  have "norm_sq ((replicate m 0)[r := 1]) =
      (\<Sum>i<length ((replicate m (0::complex))[r := 1]). (cmod ((replicate m 0)[r := 1] ! i))\<^sup>2)"
    by (rule norm_sq_sum)
  also have "\<dots> = (\<Sum>i<m. (cmod ((replicate m 0)[r := 1] ! i))\<^sup>2)"
    by simp
  also have "\<dots> = (\<Sum>i<m. if i = r then 1 else 0)"
    by (rule sum.cong [OF refl]) (simp add: basis_nth)
  also have "\<dots> = 1"
    using assms by simp
  finally show ?thesis .
qed

lemma collapse_state_returns:
  assumes wf: "wf_circuit c" and v: "valid_qubits (num_qubits c) qt"
    and r: "r < 2 ^ length (measured_axes (num_qubits c) qt)"
  shows "\<exists>c'. collapse_state c qt (format_b (length (measured_axes (num_qubits c) qt)) r) = Inr c' \<and>
              num_qubits c' = num_qubits c \<and> length (state c') = 2 ^ num_qubits c"
proof (cases "qt = []")
  case True
  then show ?thesis
    using collapse_state_empty [OF wf, of r] r by (simp add: measured_axes_def)
next
  case False
  then show ?thesis
    using collapse_state_valid [OF v False, of r] r by (simp add: measured_axes_def)
qed

lemma collapse_post:
  assumes wf: "wf_circuit c" and v: "valid_qubits (num_qubits c) qt"
    and r: "r < 2 ^ length (measured_axes (num_qubits c) qt)"
    and pos: "0 < marginal_at (num_qubits c) (measured_axes (num_qubits c) qt) (state c) r"
  shows "\<exists>c'. collapse_state c qt (format_b (length (measured_axes (num_qubits c) qt)) r) = Inr c' \<and>
           num_qubits c' = num_qubits c \<and> length (state c') = 2 ^ num_qubits c \<and>
           norm_sq (state c') = 1 \<and>
           (\<forall>i<2 ^ num_qubits c. state c' ! i \<noteq> 0 \<longrightarrow>
              sub_index (num_qubits c) (measured_axes (num_qubits c) qt) i = r) \<and>
           (\<forall>r'. marginal_at (num_qubits c) (measured_axes (num_qubits c) qt) (state c') r' =
              (if r' = r then 1 else 0))"
proof (cases "qt = []")
  case True
  let ?n = "num_qubits c"
  let ?e = "(replicate (2 ^ ?n) (0::complex))[r := 1]"
  have r': "r < 2 ^ ?n"
    using r True by (simp add: measured_axes_def)
  have M: "measured_axes ?n qt = [0..<?n]"
    using True by (simp add: measured_axes_def)
  have marg: "marginal_at ?n [0..<?n] ?e r' = (if r' = r then 1 else 0)" for r'
  proof (cases "r' < 2 ^ ?n")
    case True
    then show ?thesis
      by (simp add: marginal_at_all basis_nth)
  next
    case False
    then have "{i. i < 2 ^ ?n \<and> sub_index ?n [0..<?n] i = r'} = {}"
      by (auto simp: sub_index_all)
    then have "marginal_at ?n [0..<?n] ?e r' = 0"
      by (simp only: marginal_at_def sum.empty)
    moreover have "r' \<noteq> r"
      using False r' by auto
    ultimately show ?thesis
      by simp
  qed
  have "collapse_state c qt (format_b ?n r) = Inr (c\<lparr>state := ?e\<rparr>)"
    using collapse_state_empty [OF wf r'] True by simp
  moreover have "norm_sq ?e = 1"
    using r' by (rule norm_sq_basis)
  moreover have "\<forall>i<2 ^ ?n. ?e ! i \<noteq> 0 \<longrightarrow> sub_index ?n [0..<?n] i = r"
    by (simp add: basis_nth sub_index_all)
  ultimately show ?thesis
    using marg by (simp add: M)
next
  case False
  let ?n = "num_qubits c"
  let ?s = "collapsed_onto ?n qt (state c) r"
  have M: "measured_axes ?n qt = qt"
    using False by (simp add: measured_axes_def)
  have r': "r < 2 ^ length qt" and pos': "0 < marginal_at ?n qt (state c) r"
    using r pos by (simp_all add: M)
  have "collapse_state c qt (format_b (length qt) r) = Inr (c\<lparr>state := ?s\<rparr>)"
    using v False r' pos' by (rule collapse_state_onto)
  moreover have "norm_sq ?s = 1"
    using pos' by (rule norm_sq_collapsed)
  moreover have "\<forall>i<2 ^ ?n. ?s ! i \<noteq> 0 \<longrightarrow> sub_index ?n qt i = r"
    by (simp add: collapsed_onto_nth)
  moreover have "\<forall>r'. marginal_at ?n qt ?s r' = (if r' = r then 1 else 0)"
    using marginal_at_collapsed [OF pos'] by simp
  ultimately show ?thesis
    by (simp add: M)
qed

lemma rng_contractD:
  assumes "rng_contract rng" and "rng a sz p = Inr outs"
  shows "length outs = sz" and "\<forall>x \<in> set outs. x < a"
  using assms unfolding rng_contract_def by blast+

lemma rng_contract_returns:
  assumes "rng_contract rng" and "a = length p" and "0 < sz"
    and "\<forall>x \<in> set p. 0 \<le> x" and "sum_list p = 1"
  shows "\<exists>outs. rng a sz p = Inr outs"
  using assms unfolding rng_contract_def by blast

lemma measure_returns:
  assumes wf: "wf_circuit c" and g: "rng_contract rng"
    and q: "normalise_qubits c qubits = Inr qt"
    and m: "measure_qubits c qubits shots rng = Inr (res, c')"
  defines "K \<equiv> length (measured_axes (num_qubits c) qt)"
  defines "keys \<equiv> map (format_b K) [0..<2 ^ K]"
  shows "\<exists>outs p. rng (2 ^ K) (nat shots) p = Inr outs \<and> 0 < shots \<and> length outs = nat shots \<and>
           (\<forall>x \<in> set outs. x < 2 ^ K) \<and>
           res = \<lparr>counts = map (\<lambda>k. (k, int (count_list (map (\<lambda>x. keys ! x) outs) k))) keys\<rparr> \<and>
           collapse_state c qt (format_b K (last outs)) = Inr c'"
proof -
  let ?n = "num_qubits c"
  let ?P = "marginal_at ?n (measured_axes ?n qt) (state c)"
  have v: "valid_qubits ?n qt"
    using q by (rule normalise_Inr_valid)
  have K: "0 < K"
    using wf measured_axes_nonempty [of ?n qt] by (simp add: K_def wf_circuit_def)
  have d: "probabilities c (Some (map int qt)) = Inr (map (\<lambda>r. (format_b K r, ?P r)) [0..<2 ^ K])"
    unfolding K_def using wf v by (rule measured_dist)
  have shots: "0 < shots"
    using m by (cases "0 < shots") (simp_all add: measure_qubits_def)
  define total where "total = sum_list (map ?P [0..<2 ^ K])"
  define p where "p = (if \<not> isclose total 1 then map (\<lambda>p. p / total) (map ?P [0..<2 ^ K])
                       else map ?P [0..<2 ^ K])"
  define tally where "tally = (\<lambda>outs. foldl (\<lambda>d index. bump d (keys ! index))
                                       (map (\<lambda>key. (key, 0)) keys) outs)"
  define body where "body = (case rng (2 ^ K) (nat shots) p of
              Inl e \<Rightarrow> Inl e
            | Inr outs \<Rightarrow>
                (case collapse_state c qt (keys ! last outs) of
                   Inl e \<Rightarrow> Inl e
                 | Inr c' \<Rightarrow> Inr (\<lparr>counts = tally outs\<rparr>, c')))"
  have unf: "measure_qubits c qubits shots rng =
     (if \<not> isclose total 1 \<and> total = 0 then Inl ValueError else body)"
    unfolding body_def tally_def p_def total_def keys_def
    using measure_unfold [OF q d K shots, of rng] by (simp only: Let_def)
  have A: "body = Inr (res, c')"
  proof (cases "\<not> isclose total 1 \<and> total = 0")
    case True
    then have "measure_qubits c qubits shots rng = Inl ValueError"
      unfolding unf by (rule if_P)
    then show ?thesis
      using m by simp
  next
    case False
    then have "measure_qubits c qubits shots rng = body"
      unfolding unf by (rule if_not_P)
    then show ?thesis
      using m by simp
  qed
  then obtain outs where r: "rng (2 ^ K) (nat shots) p = Inr outs"
    unfolding body_def by (cases "rng (2 ^ K) (nat shots) p") simp_all
  have B: "(case collapse_state c qt (keys ! last outs) of
              Inl e \<Rightarrow> Inl e
            | Inr c' \<Rightarrow> Inr (\<lparr>counts = tally outs\<rparr>, c')) = Inr (res, c')"
    using A unfolding body_def by (simp only: r sum.case)
  then obtain c'' where c'': "collapse_state c qt (keys ! last outs) = Inr c''"
    by (cases "collapse_state c qt (keys ! last outs)") simp_all
  have c: "collapse_state c qt (keys ! last outs) = Inr c'" and res: "res = \<lparr>counts = tally outs\<rparr>"
    using B by (simp_all add: c'')
  have len: "length outs = nat shots" and lt: "\<forall>x \<in> set outs. x < 2 ^ K"
    using rng_contractD [OF g r] by simp_all
  have ne: "outs \<noteq> []"
    using len shots by auto
  then have last: "last outs < 2 ^ K"
    using lt by simp
  have dk: "distinct keys"
    unfolding keys_def using K by (rule distinct_format_b)
  have lk: "\<forall>x \<in> set outs. x < length keys"
    using lt by (simp add: keys_def)
  have "tally outs =
        map (\<lambda>k. (k, 0 + int (count_list (map (\<lambda>x. keys ! x) outs) k))) keys"
    unfolding tally_def using dk lk by (rule tally_graph)
  then have res': "res = \<lparr>counts = map (\<lambda>k. (k, int (count_list (map (\<lambda>x. keys ! x) outs) k))) keys\<rparr>"
    by (simp add: res)
  have "keys ! last outs = format_b K (last outs)"
    using last by (simp add: keys_def)
  then have "collapse_state c qt (format_b K (last outs)) = Inr c'"
    using c by simp
  then show ?thesis
    using r shots len lt res' by blast
qed

lemma measure_unit_norm:
  assumes wf: "wf_circuit c" and unit: "norm_sq (state c) = 1" and g: "rng_contract rng"
    and q: "normalise_qubits c qubits = Inr qt" and shots: "0 < shots"
  defines "K \<equiv> length (measured_axes (num_qubits c) qt)"
  defines "P \<equiv> marginal_at (num_qubits c) (measured_axes (num_qubits c) qt) (state c)"
  defines "keys \<equiv> map (format_b K) [0..<2 ^ K]"
  shows "\<exists>outs c'. rng (2 ^ K) (nat shots) (map P [0..<2 ^ K]) = Inr outs \<and>
           length outs = nat shots \<and> (\<forall>x \<in> set outs. x < 2 ^ K) \<and>
           collapse_state c qt (format_b K (last outs)) = Inr c' \<and>
           measure_qubits c qubits shots rng =
             Inr (\<lparr>counts = map (\<lambda>k. (k, int (count_list (map (\<lambda>x. keys ! x) outs) k))) keys\<rparr>, c')"
proof -
  let ?n = "num_qubits c"
  have v: "valid_qubits ?n qt"
    using q by (rule normalise_Inr_valid)
  have vM: "valid_qubits ?n (measured_axes ?n qt)"
    using v by (rule measured_axes_valid)
  have K: "0 < K"
    using wf measured_axes_nonempty [of ?n qt] by (simp add: K_def wf_circuit_def)
  have d: "probabilities c (Some (map int qt)) = Inr (map (\<lambda>r. (format_b K r, P r)) [0..<2 ^ K])"
    unfolding K_def P_def using wf v by (rule measured_dist)
  have len: "length (state c) = 2 ^ ?n"
    using wf by (simp add: wf_circuit_def)
  have total: "sum_list (map P [0..<2 ^ K]) = 1"
    unfolding P_def K_def using total_marginal [OF vM len] unit by simp
  have nonneg: "\<forall>x \<in> set (map P [0..<2 ^ K]). 0 \<le> x"
    by (auto simp: P_def marginal_at_nonneg)
  have "\<exists>outs. rng (2 ^ K) (nat shots) (map P [0..<2 ^ K]) = Inr outs"
    using g _ _ nonneg total by (rule rng_contract_returns) (simp_all add: shots)
  then obtain outs where r: "rng (2 ^ K) (nat shots) (map P [0..<2 ^ K]) = Inr outs" ..
  have lo: "length outs = nat shots" and lt: "\<forall>x \<in> set outs. x < 2 ^ K"
    using rng_contractD [OF g r] by simp_all
  have "outs \<noteq> []"
    using lo shots by auto
  then have last: "last outs < 2 ^ K"
    using lt by simp
  obtain c' where c': "collapse_state c qt (format_b K (last outs)) = Inr c'"
    using collapse_state_returns [OF wf v] last unfolding K_def by blast
  have kl: "keys ! last outs = format_b K (last outs)"
    using last by (simp add: keys_def)
  have dk: "distinct keys"
    unfolding keys_def using K by (rule distinct_format_b)
  have lk: "\<forall>x \<in> set outs. x < length keys"
    using lt by (simp add: keys_def)
  have tally: "foldl (\<lambda>d index. bump d (keys ! index)) (map (\<lambda>key. (key, 0)) keys) outs =
        map (\<lambda>k. (k, 0 + int (count_list (map (\<lambda>x. keys ! x) outs) k))) keys"
    using dk lk by (rule tally_graph)
  have "measure_qubits c qubits shots rng =
      Inr (\<lparr>counts = map (\<lambda>k. (k, int (count_list (map (\<lambda>x. keys ! x) outs) k))) keys\<rparr>, c')"
    unfolding measure_unfold [OF q d K shots] Let_def total keys_def [symmetric]
    by (simp add: isclose_1_1 r kl c' tally)
  then show ?thesis
    using r lo lt c' by blast
qed

lemma total_shots_tally:
  assumes "distinct keys" and "\<forall>x \<in> set outs. x < length keys"
  shows "total_shots \<lparr>counts = map (\<lambda>k. (k, int (count_list (map (\<lambda>x. keys ! x) outs) k))) keys\<rparr>
         = int (length outs)"
proof -
  have "total_shots \<lparr>counts = map (\<lambda>k. (k, int (count_list (map (\<lambda>x. keys ! x) outs) k))) keys\<rparr>
      = (\<Sum>k\<leftarrow>keys. int (count_list (map (\<lambda>x. keys ! x) outs) k))"
    by (simp add: total_shots_def o_def)
  also have "\<dots> = int (length outs)"
    using assms by (rule tally_total)
  finally show ?thesis .
qed

lemma sum_list_divide: "(\<Sum>x\<leftarrow>xs. x / t) = sum_list xs / (t::real)"
  by (induction xs) (simp_all add: add_divide_distrib)

lemma measure_renormalised:
  assumes wf: "wf_circuit c" and nz: "norm_sq (state c) \<noteq> 0"
    and far: "\<not> isclose (norm_sq (state c)) 1" and g: "rng_contract rng"
    and q: "normalise_qubits c qubits = Inr qt" and shots: "0 < shots"
  defines "K \<equiv> length (measured_axes (num_qubits c) qt)"
  defines "P \<equiv> marginal_at (num_qubits c) (measured_axes (num_qubits c) qt) (state c)"
  defines "keys \<equiv> map (format_b K) [0..<2 ^ K]"
  shows "\<exists>outs c'. rng (2 ^ K) (nat shots)
             (map (\<lambda>x. x / norm_sq (state c)) (map P [0..<2 ^ K])) = Inr outs \<and>
           length outs = nat shots \<and> (\<forall>x \<in> set outs. x < 2 ^ K) \<and>
           collapse_state c qt (format_b K (last outs)) = Inr c' \<and>
           measure_qubits c qubits shots rng =
             Inr (\<lparr>counts = map (\<lambda>k. (k, int (count_list (map (\<lambda>x. keys ! x) outs) k))) keys\<rparr>, c')"
proof -
  let ?n = "num_qubits c"
  let ?p = "map (\<lambda>x. x / norm_sq (state c)) (map P [0..<2 ^ K])"
  have v: "valid_qubits ?n qt"
    using q by (rule normalise_Inr_valid)
  have vM: "valid_qubits ?n (measured_axes ?n qt)"
    using v by (rule measured_axes_valid)
  have K: "0 < K"
    using wf measured_axes_nonempty [of ?n qt] by (simp add: K_def wf_circuit_def)
  have d: "probabilities c (Some (map int qt)) = Inr (map (\<lambda>r. (format_b K r, P r)) [0..<2 ^ K])"
    unfolding K_def P_def using wf v by (rule measured_dist)
  have len: "length (state c) = 2 ^ ?n"
    using wf by (simp add: wf_circuit_def)
  have total: "sum_list (map P [0..<2 ^ K]) = norm_sq (state c)"
    unfolding P_def K_def using vM len by (rule total_marginal)
  have pos: "0 < norm_sq (state c)"
  proof -
    have "0 \<le> norm_sq (state c)"
      unfolding norm_sq_def by (rule sum_list_nonneg) auto
    then show ?thesis
      using nz by simp
  qed
  have nonneg: "\<forall>x \<in> set ?p. 0 \<le> x"
    using pos by (auto simp: P_def marginal_at_nonneg)
  have one: "sum_list ?p = 1"
    using nz by (simp only: sum_list_divide total) simp
  have "\<exists>outs. rng (2 ^ K) (nat shots) ?p = Inr outs"
    using g _ _ nonneg one by (rule rng_contract_returns) (simp_all add: shots)
  then obtain outs where r: "rng (2 ^ K) (nat shots) ?p = Inr outs" ..
  have lo: "length outs = nat shots" and lt: "\<forall>x \<in> set outs. x < 2 ^ K"
    using rng_contractD [OF g r] by simp_all
  have "outs \<noteq> []"
    using lo shots by auto
  then have last: "last outs < 2 ^ K"
    using lt by simp
  obtain c' where c': "collapse_state c qt (format_b K (last outs)) = Inr c'"
    using collapse_state_returns [OF wf v] last unfolding K_def by blast
  have kl: "keys ! last outs = format_b K (last outs)"
    using last by (simp add: keys_def)
  have dk: "distinct keys"
    unfolding keys_def using K by (rule distinct_format_b)
  have lk: "\<forall>x \<in> set outs. x < length keys"
    using lt by (simp add: keys_def)
  have tally: "foldl (\<lambda>d index. bump d (keys ! index)) (map (\<lambda>key. (key, 0)) keys) outs =
        map (\<lambda>k. (k, 0 + int (count_list (map (\<lambda>x. keys ! x) outs) k))) keys"
    using dk lk by (rule tally_graph)
  have "measure_qubits c qubits shots rng =
      Inr (\<lparr>counts = map (\<lambda>k. (k, int (count_list (map (\<lambda>x. keys ! x) outs) k))) keys\<rparr>, c')"
    unfolding measure_unfold [OF q d K shots] Let_def total keys_def [symmetric]
    using far nz by (simp add: r kl c' tally del: map_map)
  then show ?thesis
    using r lo lt c' by blast
qed

lemma measure_returns_total:
  assumes wf: "wf_circuit c"
    and n: "norm_sq (state c) = 1 \<or> (norm_sq (state c) \<noteq> 0 \<and> \<not> isclose (norm_sq (state c)) 1)"
    and g: "rng_contract rng"
    and q: "normalise_qubits c qubits = Inr qt" and shots: "0 < shots"
  defines "K \<equiv> length (measured_axes (num_qubits c) qt)"
  defines "P \<equiv> marginal_at (num_qubits c) (measured_axes (num_qubits c) qt) (state c)"
  defines "keys \<equiv> map (format_b K) [0..<2 ^ K]"
  shows "\<exists>outs c'. rng (2 ^ K) (nat shots)
             (map (\<lambda>x. x / norm_sq (state c)) (map P [0..<2 ^ K])) = Inr outs \<and>
           length outs = nat shots \<and> (\<forall>x \<in> set outs. x < 2 ^ K) \<and>
           collapse_state c qt (format_b K (last outs)) = Inr c' \<and>
           measure_qubits c qubits shots rng =
             Inr (\<lparr>counts = map (\<lambda>k. (k, int (count_list (map (\<lambda>x. keys ! x) outs) k))) keys\<rparr>, c')"
proof (cases "norm_sq (state c) = 1")
  case True
  have e: "map (\<lambda>x. x / norm_sq (state c)) (map P [0..<2 ^ K]) = map P [0..<2 ^ K]"
    by (simp add: True)
  show ?thesis
    unfolding e unfolding K_def P_def keys_def
    by (rule measure_unit_norm [OF wf True g q shots])
next
  case False
  then have nz: "norm_sq (state c) \<noteq> 0" and far: "\<not> isclose (norm_sq (state c)) 1"
    using n by simp_all
  show ?thesis
    unfolding K_def P_def keys_def
    by (rule measure_renormalised [OF wf nz far g q shots])
qed

text \<open>
  Claim C3 (measurement). On a register whose norm is 1, or is neither zero nor close to
  1, for a qubit subset that \<^verbatim>\<open>_normalise_qubits\<close> accepts, a positive shot count and a
  generator that keeps its contract, \<^verbatim>\<open>measure\<close> returns. The generator is asked once
  for \<open>shots\<close> indices with the marginal distribution over the subset, divided by its
  sum, as \<open>p\<close>; the count of each bit string is the number of draws of it, so the
  counts sum to \<open>shots\<close>; and the register after the call is one collapse of the
  register before the call onto the last drawn outcome. That the draws are independent
  is a property of the generator, outside this embedding.
\<close>

theorem measure_counts_and_single_collapse:
  assumes "wf_circuit c"
    and "norm_sq (state c) = 1 \<or> (norm_sq (state c) \<noteq> 0 \<and> \<not> isclose (norm_sq (state c)) 1)"
    and "rng_contract rng" and "normalise_qubits c qubits = Inr qt" and "0 < shots"
  shows "\<exists>dist outs res c'.
           probabilities c (Some (map int qt)) = Inr dist \<and>
           sum_list (map snd dist) = norm_sq (state c) \<and>
           rng (length dist) (nat shots)
             (map (\<lambda>x. x / sum_list (map snd dist)) (map snd dist)) = Inr outs \<and>
           length outs = nat shots \<and>
           measure_qubits c qubits shots rng = Inr (res, c') \<and>
           counts res =
             map (\<lambda>key. (key, int (count_list (map (\<lambda>x. fst (dist ! x)) outs) key))) (map fst dist) \<and>
           total_shots res = shots \<and>
           collapse_state c qt (fst (dist ! last outs)) = Inr c'"
proof -
  let ?n = "num_qubits c"
  define K where "K = length (measured_axes ?n qt)"
  define P where "P = marginal_at ?n (measured_axes ?n qt) (state c)"
  define keys where "keys = map (format_b K) [0..<2 ^ K]"
  define dist where "dist = map (\<lambda>r. (format_b K r, P r)) [0..<2 ^ K]"
  have v: "valid_qubits ?n qt"
    using assms(4) by (rule normalise_Inr_valid)
  have vM: "valid_qubits ?n (measured_axes ?n qt)"
    using v by (rule measured_axes_valid)
  have K: "0 < K"
    using assms(1) measured_axes_nonempty [of ?n qt] by (simp add: K_def wf_circuit_def)
  have d: "probabilities c (Some (map int qt)) = Inr dist"
    unfolding dist_def K_def P_def using assms(1) v by (rule measured_dist)
  have len: "length (state c) = 2 ^ ?n"
    using assms(1) by (simp add: wf_circuit_def)
  obtain outs c' where
    r: "rng (2 ^ K) (nat shots) (map (\<lambda>x. x / norm_sq (state c)) (map P [0..<2 ^ K])) = Inr outs"
    and lo: "length outs = nat shots" and lt: "\<forall>x \<in> set outs. x < 2 ^ K" and
    c': "collapse_state c qt (format_b K (last outs)) = Inr c'" and
    m: "measure_qubits c qubits shots rng =
          Inr (\<lparr>counts = map (\<lambda>k. (k, int (count_list (map (\<lambda>x. keys ! x) outs) k))) keys\<rparr>, c')"
    using measure_returns_total [OF assms] unfolding K_def P_def keys_def by blast
  let ?res = "\<lparr>counts = map (\<lambda>k. (k, int (count_list (map (\<lambda>x. keys ! x) outs) k))) keys\<rparr>"
  have ne: "outs \<noteq> []"
    using lo assms(5) by auto
  then have last: "last outs < 2 ^ K"
    using lt by simp
  have ld: "length dist = 2 ^ K" and sd: "map snd dist = map P [0..<2 ^ K]"
    and fd: "map fst dist = keys"
    by (simp_all add: dist_def keys_def o_def)
  have total': "sum_list (map P [0..<2 ^ K]) = norm_sq (state c)"
    unfolding P_def K_def using vM len by (rule total_marginal)
  have total: "sum_list (map snd dist) = norm_sq (state c)"
    by (simp only: sd total')
  have nth: "fst (dist ! x) = keys ! x" if "x < 2 ^ K" for x
    using that by (simp add: dist_def keys_def)
  have drawn: "map (\<lambda>x. fst (dist ! x)) outs = map (\<lambda>x. keys ! x) outs"
    using lt by (intro map_cong [OF refl]) (simp add: nth)
  have dk: "distinct keys"
    unfolding keys_def using K by (rule distinct_format_b)
  have lk: "\<forall>x \<in> set outs. x < length keys"
    using lt by (simp add: keys_def)
  have ts: "total_shots ?res = shots"
    using total_shots_tally [OF dk lk] lo assms(5) by simp
  have "rng (length dist) (nat shots)
      (map (\<lambda>x. x / sum_list (map snd dist)) (map snd dist)) = Inr outs"
    using r by (simp only: ld sd total')
  moreover have "counts ?res =
      map (\<lambda>key. (key, int (count_list (map (\<lambda>x. fst (dist ! x)) outs) key))) (map fst dist)"
    by (simp add: drawn fd)
  moreover have "collapse_state c qt (fst (dist ! last outs)) = Inr c'"
    using c' last by (simp add: nth keys_def)
  ultimately show ?thesis
    using d total lo m ts by blast
qed

lemma rng_first_contract: "rng_contract rng_first"
proof -
  have "sum_list p \<noteq> 1" if "0 = length p" for p :: "real list"
    using that by simp
  then show ?thesis
    unfolding rng_contract_def rng_first_def by (auto split: if_splits)
qed

lemma double_wf: "wf_circuit \<lparr>num_qubits = 1, state = [2, 0]\<rparr>"
  by (simp add: wf_circuit_def)

lemma double_norm:
  "norm_sq (state \<lparr>num_qubits = 1, state = [2, 0]\<rparr>) = 1 \<or>
   (norm_sq (state \<lparr>num_qubits = 1, state = [2, 0]\<rparr>) \<noteq> 0 \<and>
    \<not> isclose (norm_sq (state \<lparr>num_qubits = 1, state = [2, 0]\<rparr>)) 1)"
  by (simp add: norm_sq_def isclose_def)

lemma double_normalise: "normalise_qubits \<lparr>num_qubits = 1, state = [2, 0]\<rparr> None = Inr [0]"
  by (simp add: normalise_qubits_def)

lemma double_measure:
  "measure_qubits \<lparr>num_qubits = 1, state = [2, 0]\<rparr> None 1 rng_first =
   Inr (\<lparr>counts = [(''0'', 1), (''1'', 0)]\<rparr>, \<lparr>num_qubits = 1, state = [1, 0]\<rparr>)"
  by (simp add: measure_qubits_def normalise_qubits_def probabilities_def Let_def
      distribution_from_probabilities_def permutation_of_def np_transpose_def source_index_def
      small_eval format_b_def bin_digits.simps dict_of_items_def bit_char_def isclose_def
      rng_first_def bump_def collapse_state_def int_base2_def char_bit_def argsort_def)

theorem measure_counts_and_single_collapse_witness:
  "wf_circuit \<lparr>num_qubits = 1, state = [2, 0]\<rparr> \<and>
   norm_sq (state \<lparr>num_qubits = 1, state = [2, 0]\<rparr>) = 4 \<and>
   rng_contract rng_first \<and>
   normalise_qubits \<lparr>num_qubits = 1, state = [2, 0]\<rparr> None = Inr [0] \<and>
   measure_qubits \<lparr>num_qubits = 1, state = [2, 0]\<rparr> None 1 rng_first =
     Inr (\<lparr>counts = [(''0'', 1), (''1'', 0)]\<rparr>, \<lparr>num_qubits = 1, state = [1, 0]\<rparr>) \<and>
   (\<exists>dist outs res c'.
      probabilities \<lparr>num_qubits = 1, state = [2, 0]\<rparr> (Some (map int [0])) = Inr dist \<and>
      sum_list (map snd dist) = norm_sq (state \<lparr>num_qubits = 1, state = [2, 0]\<rparr>) \<and>
      rng_first (length dist) (nat 1)
        (map (\<lambda>x. x / sum_list (map snd dist)) (map snd dist)) = Inr outs \<and>
      length outs = nat 1 \<and>
      measure_qubits \<lparr>num_qubits = 1, state = [2, 0]\<rparr> None 1 rng_first = Inr (res, c') \<and>
      counts res =
        map (\<lambda>key. (key, int (count_list (map (\<lambda>x. fst (dist ! x)) outs) key))) (map fst dist) \<and>
      total_shots res = 1 \<and>
      collapse_state \<lparr>num_qubits = 1, state = [2, 0]\<rparr> [0] (fst (dist ! last outs)) = Inr c')"
proof -
  have n4: "norm_sq (state \<lparr>num_qubits = 1, state = [2, 0]\<rparr>) = 4"
    by (simp add: norm_sq_def)
  have s: "(0::int) < 1"
    by simp
  show ?thesis
    by (intro conjI double_wf n4 rng_first_contract double_normalise double_measure
        measure_counts_and_single_collapse
          [OF double_wf double_norm rng_first_contract double_normalise s])
qed

section \<open>Unitary gates keep the norm\<close>

lemma cmod_sq_cnj: "complex_of_real ((cmod z)\<^sup>2) = z * cnj z"
  by (rule complex_norm_square)

lemma unitary_column:
  assumes u: "is_unitary d u"
  shows "(\<Sum>r<d. (cmod (\<Sum>j<d. u ! (r * d + j) * x j))\<^sup>2) = (\<Sum>j<d. (cmod (x j))\<^sup>2)"
proof -
  have orth: "(\<Sum>r<d. cnj (u ! (r * d + j')) * u ! (r * d + j)) = (if j' = j then 1 else 0)"
    if "j < d" "j' < d" for j j'
    using u that by (simp add: is_unitary_def)
  have "complex_of_real (\<Sum>r<d. (cmod (\<Sum>j<d. u ! (r * d + j) * x j))\<^sup>2) =
      (\<Sum>r<d. (\<Sum>j<d. u ! (r * d + j) * x j) * cnj (\<Sum>j'<d. u ! (r * d + j') * x j'))"
    by (simp only: of_real_sum cmod_sq_cnj)
  also have "\<dots> = (\<Sum>r<d. \<Sum>j<d. \<Sum>j'<d.
      (x j * cnj (x j')) * (cnj (u ! (r * d + j')) * u ! (r * d + j)))"
    by (simp add: cnj_sum sum_product algebra_simps)
  also have "\<dots> = (\<Sum>j<d. \<Sum>r<d. \<Sum>j'<d.
      (x j * cnj (x j')) * (cnj (u ! (r * d + j')) * u ! (r * d + j)))"
    by (rule sum.swap)
  also have "\<dots> = (\<Sum>j<d. \<Sum>j'<d. \<Sum>r<d.
      (x j * cnj (x j')) * (cnj (u ! (r * d + j')) * u ! (r * d + j)))"
    by (rule sum.cong [OF refl]) (rule sum.swap)
  also have "\<dots> = (\<Sum>j<d. \<Sum>j'<d.
      (x j * cnj (x j')) * (\<Sum>r<d. cnj (u ! (r * d + j')) * u ! (r * d + j)))"
    by (simp only: sum_distrib_left)
  also have "\<dots> = (\<Sum>j<d. \<Sum>j'<d. (x j * cnj (x j')) * (if j' = j then 1 else 0))"
    by (intro sum.cong [OF refl]) (simp add: orth)
  also have "\<dots> = (\<Sum>j<d. \<Sum>j'<d. if j' = j then x j * cnj (x j') else 0)"
    by (intro sum.cong [OF refl]) simp
  also have "\<dots> = (\<Sum>j<d. x j * cnj (x j))"
    by (intro sum.cong [OF refl]) (simp add: sum.delta)
  also have "\<dots> = complex_of_real (\<Sum>j<d. (cmod (x j))\<^sup>2)"
    by (simp only: of_real_sum cmod_sq_cnj)
  finally show ?thesis
    by (simp only: of_real_eq_iff)
qed

lemma sum_blocks: "(\<Sum>t<(d::nat) * m. g t) = (\<Sum>r<d. \<Sum>c<m. g (r * m + c))"
proof (induction d)
  case 0
  show ?case by simp
next
  case (Suc d)
  have "(\<Sum>t<Suc d * m. g t) = (\<Sum>t<d * m. g t) + (\<Sum>t = d * m..<d * m + m. g t)"
    by (simp add: add.commute lessThan_atLeast0 sum.atLeastLessThan_concat)
  also have "(\<Sum>t = d * m..<d * m + m. g t) = (\<Sum>c<m. g (d * m + c))"
    using sum.shift_bounds_nat_ivl [of g 0 "d * m" m] by (simp add: lessThan_atLeast0 add.commute)
  finally show ?case
    using Suc by simp
qed

lemma length_spec_subspace_action [simp]: "length (spec_subspace_action n qs u a) = 2 ^ n"
  by (simp add: spec_subspace_action_def)

lemma spec_subspace_action_nth:
  assumes v: "valid_qubits n qs" and i: "i < 2 ^ n"
  shows "spec_subspace_action n qs u a ! i =
         (\<Sum>j<2 ^ length qs. u ! (sub_index n qs i * 2 ^ length qs + j) *
            a ! source_index n (permutation_of n qs) (j * 2 ^ (n - length qs) + rest_index n qs i))"
proof -
  have "spec_subspace_action n qs u a ! i =
      (\<Sum>j<2 ^ length qs. u ! (sub_index n qs i * 2 ^ length qs + j) * a ! with_sub_index n qs i j)"
    using i by (simp add: spec_subspace_action_def sum_list_upt)
  also have "\<dots> = (\<Sum>j<2 ^ length qs. u ! (sub_index n qs i * 2 ^ length qs + j) *
      a ! source_index n (permutation_of n qs) (j * 2 ^ (n - length qs) + rest_index n qs i))"
    by (rule sum.cong [OF refl]) (simp add: source_of_pair [OF v])
  finally show ?thesis .
qed

lemma norm_sq_subspace_action:
  assumes v: "valid_qubits n qs" and u: "is_unitary (2 ^ length qs) u"
  shows "norm_sq (spec_subspace_action n qs u a) = (\<Sum>i<2 ^ n. (cmod (a ! i))\<^sup>2)"
proof -
  let ?d = "2 ^ length qs :: nat" and ?m = "2 ^ (n - length qs) :: nat"
  let ?p = "permutation_of n qs"
  let ?src = "source_index n ?p"
  define G where "G = (\<lambda>t. (cmod (\<Sum>j<?d. u ! ((t div ?m) * ?d + j) * a ! ?src (j * ?m + t mod ?m)))\<^sup>2)"
  have ax: "is_axes n ?p"
    using v by (rule permutation_axes)
  have dm: "?d * ?m = 2 ^ n"
    using v by (rule pow_split)
  have "norm_sq (spec_subspace_action n qs u a) =
      (\<Sum>i<2 ^ n. (cmod (spec_subspace_action n qs u a ! i))\<^sup>2)"
    by (simp add: norm_sq_sum)
  also have "\<dots> = (\<Sum>i<2 ^ n. G (ravel (bits_at n i ?p)))"
    unfolding G_def
    by (rule sum.cong [OF refl])
      (simp add: spec_subspace_action_nth [OF v] target_div [OF v] target_mod [OF v])
  also have "\<dots> = (\<Sum>t<2 ^ n. G t)"
    using sum_reindex_axes [OF ax, of G] by simp
  also have "\<dots> = (\<Sum>t<?d * ?m. G t)"
    by (simp only: dm)
  also have "\<dots> = (\<Sum>r<?d. \<Sum>c<?m. G (r * ?m + c))"
    by (rule sum_blocks)
  also have "\<dots> = (\<Sum>r<?d. \<Sum>c<?m. (cmod (\<Sum>j<?d. u ! (r * ?d + j) * a ! ?src (j * ?m + c)))\<^sup>2)"
    unfolding G_def by (intro sum.cong [OF refl]) simp
  also have "\<dots> = (\<Sum>c<?m. \<Sum>r<?d. (cmod (\<Sum>j<?d. u ! (r * ?d + j) * a ! ?src (j * ?m + c)))\<^sup>2)"
    by (rule sum.swap)
  also have "\<dots> = (\<Sum>c<?m. \<Sum>j<?d. (cmod (a ! ?src (j * ?m + c)))\<^sup>2)"
    by (rule sum.cong [OF refl]) (rule unitary_column [OF u])
  also have "\<dots> = (\<Sum>j<?d. \<Sum>c<?m. (cmod (a ! ?src (j * ?m + c)))\<^sup>2)"
    by (rule sum.swap)
  also have "\<dots> = (\<Sum>t<?d * ?m. (cmod (a ! ?src t))\<^sup>2)"
    by (rule sum_blocks [symmetric])
  also have "\<dots> = (\<Sum>t<2 ^ n. (cmod (a ! ?src t))\<^sup>2)"
    by (simp only: dm)
  also have "\<dots> = (\<Sum>i<2 ^ n. (cmod (a ! ?src (ravel (bits_at n i ?p))))\<^sup>2)"
    using ax by (rule sum_reindex_axes)
  also have "\<dots> = (\<Sum>i<2 ^ n. (cmod (a ! i))\<^sup>2)"
    by (rule sum.cong [OF refl]) (simp add: source_target [OF ax])
  finally show ?thesis .
qed

lemma apply_unitary_Inr:
  assumes "apply_unitary c u qs = Inr c'"
  shows "\<exists>qt. normalise_qubits c (Some qs) = Inr qt \<and> length qt = length qs \<and>
           c' = c\<lparr>state := spec_subspace_action (num_qubits c) qt (data u) (state c)\<rparr>"
proof -
  obtain qt where q: "normalise_qubits c (Some qs) = Inr qt"
    using assms by (cases "normalise_qubits c (Some qs)") (simp_all add: apply_unitary_def split: if_splits)
  have v: "valid_qubits (num_qubits c) qt"
    using q by (rule normalise_Inr_valid)
  have len: "length qt = length qs"
    using q by (auto simp: normalise_qubits_def split: if_splits)
  have "c' = c\<lparr>state := spec_subspace_action (num_qubits c) qt (data u) (state c)\<rparr>"
    using assms by (simp add: apply_unitary_def q Let_def restored_state [OF v] split: if_splits)
  then show ?thesis
    using q len by blast
qed

lemma apply_unitary_norm:
  assumes wf: "wf_circuit c" and u: "is_unitary (2 ^ length qs) (data u)"
    and a: "apply_unitary c u qs = Inr c'"
  shows "wf_circuit c' \<and> norm_sq (state c') = norm_sq (state c)"
proof -
  obtain qt where q: "normalise_qubits c (Some qs) = Inr qt" and len: "length qt = length qs"
    and c': "c' = c\<lparr>state := spec_subspace_action (num_qubits c) qt (data u) (state c)\<rparr>"
    using apply_unitary_Inr [OF a] by blast
  have v: "valid_qubits (num_qubits c) qt"
    using q by (rule normalise_Inr_valid)
  have u': "is_unitary (2 ^ length qt) (data u)"
    using u by (simp add: len)
  have "norm_sq (state c') = (\<Sum>i<2 ^ num_qubits c. (cmod (state c ! i))\<^sup>2)"
    using norm_sq_subspace_action [OF v u'] by (simp add: c')
  also have "\<dots> = norm_sq (state c)"
    using wf by (simp add: norm_sq_sum wf_circuit_def)
  finally show ?thesis
    using wf by (simp add: c' wf_circuit_def)
qed

lemma all_less_2: "(\<forall>j<2. P j) \<longleftrightarrow> P 0 \<and> P (Suc 0)"
  by (auto simp: less_2_cases_iff)

lemma all_less_4: "(\<forall>j<4. P j) \<longleftrightarrow> P 0 \<and> P (Suc 0) \<and> P 2 \<and> P 3"
proof -
  have "j < 4 \<longleftrightarrow> j = 0 \<or> j = Suc 0 \<or> j = 2 \<or> j = 3" for j :: nat
    by auto
  then show ?thesis
    by auto
qed

lemma sum_less_2: "(\<Sum>r<2. f r) = f 0 + f (Suc 0)"
  by (simp add: numeral_2_eq_2)

lemma sum_less_4: "(\<Sum>r<4. f r) = f 0 + f (Suc 0) + f 2 + f 3"
  by (simp add: eval_nat_numeral)

lemma H_gate_unitary: "is_unitary 2 (data H_gate)"
  by (simp add: is_unitary_def H_gate_def all_less_2 sum_less_2 flip: of_real_mult)

lemma X_gate_unitary: "is_unitary 2 (data X_gate)"
  by (simp add: is_unitary_def X_gate_def all_less_2 sum_less_2)

lemma CNOT_gate_unitary: "is_unitary 4 (data CNOT_gate)"
  by (simp add: is_unitary_def CNOT_gate_def all_less_4 sum_less_4)

lemma init_norm:
  assumes "0 < n"
  shows "\<exists>c. init n = Inr c \<and> state c = (replicate (2 ^ nat n) 0)[0 := 1] \<and>
           wf_circuit c \<and> norm_sq (state c) = 1"
proof -
  let ?c = "\<lparr>num_qubits = nat n, state = (replicate (2 ^ nat n) 0)[0 := 1]\<rparr>"
  have "init n = Inr ?c"
    using assms by (simp add: init_def)
  moreover have "wf_circuit ?c"
    using assms by (simp add: wf_circuit_def)
  moreover have "norm_sq (state ?c) = 1"
    using norm_sq_basis [of 0 "2 ^ nat n"] by simp
  ultimately show ?thesis
    by simp
qed

section \<open>Round trip after collapse\<close>

lemma measure_outcome:
  assumes wf: "wf_circuit c" and g: "rng_contract rng"
    and q: "normalise_qubits c qubits = Inr qt"
    and m: "measure_qubits c qubits shots rng = Inr (res, c')"
  defines "K \<equiv> length (measured_axes (num_qubits c) qt)"
  shows "\<exists>r<2 ^ K. collapse_state c qt (format_b K r) = Inr c' \<and>
           map fst (counts res) = map (format_b K) [0..<2 ^ K] \<and>
           (\<exists>cnt. (format_b K r, cnt) \<in> set (counts res) \<and> 0 < cnt)"
proof -
  define keys where "keys = map (format_b K) [0..<2 ^ K]"
  obtain outs p where r: "rng (2 ^ K) (nat shots) p = Inr outs" and shots: "0 < shots"
    and lo: "length outs = nat shots" and lt: "\<forall>x \<in> set outs. x < 2 ^ K"
    and res: "res = \<lparr>counts = map (\<lambda>k. (k, int (count_list (map (\<lambda>x. keys ! x) outs) k))) keys\<rparr>"
    and c': "collapse_state c qt (format_b K (last outs)) = Inr c'"
    using measure_returns [OF wf g q m] unfolding K_def keys_def by blast
  have ne: "outs \<noteq> []"
    using lo shots by auto
  then have last: "last outs < 2 ^ K" and mem: "last outs \<in> set outs"
    using lt by simp_all
  let ?s = "format_b K (last outs)"
  have s: "?s = keys ! last outs" and sk: "?s \<in> set keys"
    using last by (simp_all add: keys_def)
  have "?s \<in> set (map (\<lambda>x. keys ! x) outs)"
    using mem by (auto simp: s)
  then have pos: "0 < count_list (map (\<lambda>x. keys ! x) outs) ?s"
    using count_list_0_iff [of "map (\<lambda>x. keys ! x) outs" ?s] by simp
  have "(?s, int (count_list (map (\<lambda>x. keys ! x) outs) ?s)) \<in> set (counts res)"
    using sk by (auto simp: res)
  moreover have "map fst (counts res) = keys"
    by (simp add: res o_def)
  ultimately show ?thesis
    using last c' pos unfolding keys_def by (intro exI [of _ "last outs"]) auto
qed

lemma post_collapse_distributions:
  assumes wf: "wf_circuit c" and v: "valid_qubits (num_qubits c) qt"
  defines "M \<equiv> measured_axes (num_qubits c) qt"
  assumes r: "r < 2 ^ length M"
    and pos: "0 < marginal_at (num_qubits c) M (state c) r"
    and c': "collapse_state c qt (format_b (length M) r) = Inr c'"
  shows "wf_circuit c'" and "norm_sq (state c') = 1"
    and "probabilities c' (Some (map int qt)) =
           Inr (map (\<lambda>key. (key, if key = format_b (length M) r then 1 else 0))
                    (map (format_b (length M)) [0..<2 ^ length M]))"
    and "probabilities c' None =
           Inr (map (\<lambda>i. (format_b (num_qubits c) i, (cmod (state c' ! i))\<^sup>2))
                    [0..<2 ^ num_qubits c])"
    and "\<forall>i<2 ^ num_qubits c. (cmod (state c' ! i))\<^sup>2 \<noteq> 0 \<longrightarrow>
           map (\<lambda>q. format_b (num_qubits c) i ! q) M = format_b (length M) r"
proof -
  let ?n = "num_qubits c" and ?K = "length M"
  obtain c'' where cc: "collapse_state c qt (format_b ?K r) = Inr c''"
    and n': "num_qubits c'' = ?n" and len': "length (state c'') = 2 ^ ?n"
    and unit: "norm_sq (state c'') = 1"
    and supp: "\<forall>i<2 ^ ?n. state c'' ! i \<noteq> 0 \<longrightarrow> sub_index ?n M i = r"
    and marg: "\<forall>r'. marginal_at ?n M (state c'') r' = (if r' = r then 1 else 0)"
    using collapse_post [OF wf v] r pos unfolding M_def by blast
  have eq: "c'' = c'"
    using cc c' by simp
  have n: "0 < ?n"
    using wf by (simp add: wf_circuit_def)
  show wf': "wf_circuit c'"
    using n n' len' by (simp add: wf_circuit_def eq [symmetric])
  show "norm_sq (state c') = 1"
    using unit by (simp add: eq)
  have v': "valid_qubits (num_qubits c') qt"
    using v n' by (simp add: eq)
  have vM: "valid_qubits ?n M"
    unfolding M_def using v by (rule measured_axes_valid)
  have neM: "M \<noteq> []"
    unfolding M_def using n by (rule measured_axes_nonempty)
  have K: "0 < ?K"
    using neM by simp
  have "probabilities c' (Some (map int qt)) =
      Inr (map (\<lambda>r'. (format_b ?K r', marginal_at ?n M (state c') r')) [0..<2 ^ ?K])"
    using measured_dist [OF wf' v'] n' by (simp add: eq [symmetric] M_def)
  also have "map (\<lambda>r'. (format_b ?K r', marginal_at ?n M (state c') r')) [0..<2 ^ ?K] =
      map (\<lambda>r'. (format_b ?K r', if format_b ?K r' = format_b ?K r then 1 else 0)) [0..<2 ^ ?K]"
    using marg r K by (intro map_cong [OF refl]) (simp add: eq format_b_inj)
  finally show "probabilities c' (Some (map int qt)) =
      Inr (map (\<lambda>key. (key, if key = format_b ?K r then 1 else 0)) (map (format_b ?K) [0..<2 ^ ?K]))"
    by (simp add: o_def)
  show "probabilities c' None =
      Inr (map (\<lambda>i. (format_b ?n i, (cmod (state c' ! i))\<^sup>2)) [0..<2 ^ ?n])"
    using probabilities_all [OF wf'] n' by (simp add: eq [symmetric])
  show "\<forall>i<2 ^ ?n. (cmod (state c' ! i))\<^sup>2 \<noteq> 0 \<longrightarrow>
      map (\<lambda>q. format_b ?n i ! q) M = format_b ?K r"
  proof (intro allI impI)
    fix i assume i: "i < 2 ^ ?n" and nz: "(cmod (state c' ! i))\<^sup>2 \<noteq> 0"
    then have "state c'' ! i \<noteq> 0"
      by (auto simp: eq)
    then have "sub_index ?n M i = r"
      using supp i by simp
    then have "agrees_on ?n M i (format_b ?K r)"
      using agrees_on_sub_index [OF vM neM i r] by simp
    then show "map (\<lambda>q. format_b ?n i ! q) M = format_b ?K r"
      by (simp add: agrees_on_def)
  qed
qed

lemma measured_dist_mem:
  assumes wf: "wf_circuit c" and v: "valid_qubits (num_qubits c) qt"
    and r: "r < 2 ^ length (measured_axes (num_qubits c) qt)"
  shows "\<exists>dist. probabilities c (Some (map int qt)) = Inr dist \<and>
           map fst dist = map (format_b (length (measured_axes (num_qubits c) qt)))
                            [0..<2 ^ length (measured_axes (num_qubits c) qt)] \<and>
           (format_b (length (measured_axes (num_qubits c) qt)) r,
            marginal_at (num_qubits c) (measured_axes (num_qubits c) qt) (state c) r) \<in> set dist"
  using r by (simp add: measured_dist [OF wf v] o_def)

text \<open>
  Claim C4 (round trip after collapse). When \<^verbatim>\<open>measure\<close> returns, the register it leaves is
  the collapse of the register before the call onto a bit string \<open>s\<close> that was drawn (its
  count is positive). If \<open>s\<close> had positive probability \<open>p\<close> before the call, then
  afterwards the distribution over the measured subset is 1 at \<open>s\<close> and 0 at every
  other bit string, and every basis state of nonzero probability in the full-register
  distribution reads \<open>s\<close> on the measured qubits.
\<close>

theorem measure_round_trip:
  assumes "wf_circuit c" and "rng_contract rng" and "normalise_qubits c qubits = Inr qt"
    and "measure_qubits c qubits shots rng = Inr (res, c')"
  shows "\<exists>dist s p.
           probabilities c (Some (map int qt)) = Inr dist \<and> (s, p) \<in> set dist \<and>
           collapse_state c qt s = Inr c' \<and>
           (\<exists>cnt. (s, cnt) \<in> set (counts res) \<and> 0 < cnt) \<and>
           (0 < p \<longrightarrow>
              probabilities c' (Some (map int qt)) =
                Inr (map (\<lambda>key. (key, if key = s then 1 else 0)) (map fst dist)) \<and>
              (\<exists>full. probabilities c' None = Inr full \<and>
                 (\<forall>key p'. (key, p') \<in> set full \<and> p' \<noteq> 0 \<longrightarrow>
                    map (\<lambda>q. key ! q) (measured_axes (num_qubits c) qt) = s)))"
proof -
  let ?n = "num_qubits c"
  define M where "M = measured_axes ?n qt"
  let ?K = "length M"
  have v: "valid_qubits ?n qt"
    using assms(3) by (rule normalise_Inr_valid)
  obtain r where r: "r < 2 ^ ?K" and c': "collapse_state c qt (format_b ?K r) = Inr c'"
    and cnt: "\<exists>cnt. (format_b ?K r, cnt) \<in> set (counts res) \<and> 0 < cnt"
    using measure_outcome [OF assms] unfolding M_def by blast
  obtain dist where d: "probabilities c (Some (map int qt)) = Inr dist"
    and keys: "map fst dist = map (format_b ?K) [0..<2 ^ ?K]"
    and mem: "(format_b ?K r, marginal_at ?n M (state c) r) \<in> set dist"
    using measured_dist_mem [OF assms(1) v] r unfolding M_def by blast
  have post: "probabilities c' (Some (map int qt)) =
        Inr (map (\<lambda>key. (key, if key = format_b ?K r then 1 else 0)) (map fst dist)) \<and>
      (\<exists>full. probabilities c' None = Inr full \<and>
         (\<forall>key p'. (key, p') \<in> set full \<and> p' \<noteq> 0 \<longrightarrow> map (\<lambda>q. key ! q) M = format_b ?K r))"
    if pos: "0 < marginal_at ?n M (state c) r"
  proof -
    note pc = post_collapse_distributions [OF assms(1) v, folded M_def, OF r pos c']
    let ?full = "map (\<lambda>i. (format_b ?n i, (cmod (state c' ! i))\<^sup>2)) [0..<2 ^ ?n]"
    have "\<forall>key p'. (key, p') \<in> set ?full \<and> p' \<noteq> 0 \<longrightarrow> map (\<lambda>q. key ! q) M = format_b ?K r"
      using pc(5) by auto
    then show ?thesis
      using pc(3,4) by (simp only: keys) blast
  qed
  show ?thesis
    using d mem c' cnt post unfolding M_def by blast
qed

lemma probabilities_2_0:
  "probabilities \<lparr>num_qubits = 2, state = [a, b, c, d]\<rparr> (Some [0]) =
   Inr [(''0'', (cmod a)\<^sup>2 + (cmod b)\<^sup>2), (''1'', (cmod c)\<^sup>2 + (cmod d)\<^sup>2)]"
  by (simp add: probabilities_def normalise_qubits_def Let_def
      distribution_from_probabilities_def permutation_of_def np_transpose_def source_index_def
      small_eval format_b_def bin_digits.simps dict_of_items_def bit_char_def)

lemma bell_probabilities_0:
  "probabilities
     \<lparr>num_qubits = 2, state = [1 / complex_of_real (sqrt 2), 0, 0, 1 / complex_of_real (sqrt 2)]\<rparr>
     (Some [0]) = Inr [(''0'', 1 / 2), (''1'', 1 / 2)]"
  by (simp add: probabilities_2_0 norm_divide power_divide)

lemma plain_probabilities_0:
  "probabilities \<lparr>num_qubits = 2, state = [1, 0, 0, 0]\<rparr> (Some [0]) = Inr [(''0'', 1), (''1'', 0)]"
  by (simp add: probabilities_2_0)

lemma plain_probabilities_all:
  "probabilities \<lparr>num_qubits = 2, state = [1, 0, 0, 0]\<rparr> None =
   Inr [(''00'', 1), (''01'', 0), (''10'', 0), (''11'', 0)]"
  by (simp add: probabilities_2_all)

lemma bell_wf:
  "wf_circuit \<lparr>num_qubits = 2, state = [1 / complex_of_real (sqrt 2), 0, 0, 1 / complex_of_real (sqrt 2)]\<rparr>"
  by (simp add: wf_circuit_def)

lemma normalise_2_0: "normalise_qubits \<lparr>num_qubits = 2, state = a\<rparr> (Some [0]) = Inr [0]"
  by (simp add: normalise_qubits_def)

lemma measure_bell_first:
  "measure_qubits
     \<lparr>num_qubits = 2, state = [1 / complex_of_real (sqrt 2), 0, 0, 1 / complex_of_real (sqrt 2)]\<rparr>
     (Some [0]) 1 rng_first =
   Inr (\<lparr>counts = [(''0'', 1), (''1'', 0)]\<rparr>, \<lparr>num_qubits = 2, state = [1, 0, 0, 0]\<rparr>)"
  by (simp add: measure_qubits_def normalise_qubits_def probabilities_def Let_def
      distribution_from_probabilities_def permutation_of_def np_transpose_def source_index_def
      small_eval format_b_def bin_digits.simps dict_of_items_def bit_char_def isclose_def
      rng_first_def bump_def collapse_state_def int_base2_def char_bit_def argsort_def
      norm_divide power_divide real_sqrt_divide)

theorem measure_round_trip_witness:
  "wf_circuit \<lparr>num_qubits = 2,
      state = [1 / complex_of_real (sqrt 2), 0, 0, 1 / complex_of_real (sqrt 2)]\<rparr> \<and>
   rng_contract rng_first \<and>
   measure_qubits
     \<lparr>num_qubits = 2, state = [1 / complex_of_real (sqrt 2), 0, 0, 1 / complex_of_real (sqrt 2)]\<rparr>
     (Some [0]) 1 rng_first =
   Inr (\<lparr>counts = [(''0'', 1), (''1'', 0)]\<rparr>, \<lparr>num_qubits = 2, state = [1, 0, 0, 0]\<rparr>) \<and>
   probabilities
     \<lparr>num_qubits = 2, state = [1 / complex_of_real (sqrt 2), 0, 0, 1 / complex_of_real (sqrt 2)]\<rparr>
     (Some [0]) = Inr [(''0'', 1 / 2), (''1'', 1 / 2)] \<and>
   probabilities \<lparr>num_qubits = 2, state = [1, 0, 0, 0]\<rparr> (Some [0]) =
     Inr [(''0'', 1), (''1'', 0)] \<and>
   probabilities \<lparr>num_qubits = 2, state = [1, 0, 0, 0]\<rparr> None =
     Inr [(''00'', 1), (''01'', 0), (''10'', 0), (''11'', 0)] \<and>
   (\<exists>dist s p.
      probabilities
        \<lparr>num_qubits = 2, state = [1 / complex_of_real (sqrt 2), 0, 0, 1 / complex_of_real (sqrt 2)]\<rparr>
        (Some (map int [0])) = Inr dist \<and> (s, p) \<in> set dist \<and>
      collapse_state
        \<lparr>num_qubits = 2, state = [1 / complex_of_real (sqrt 2), 0, 0, 1 / complex_of_real (sqrt 2)]\<rparr>
        [0] s = Inr \<lparr>num_qubits = 2, state = [1, 0, 0, 0]\<rparr> \<and>
      (\<exists>cnt. (s, cnt) \<in> set (counts \<lparr>counts = [(''0'', 1), (''1'', 0)]\<rparr>) \<and> 0 < cnt) \<and>
      (0 < p \<longrightarrow>
         probabilities \<lparr>num_qubits = 2, state = [1, 0, 0, 0]\<rparr> (Some (map int [0])) =
           Inr (map (\<lambda>key. (key, if key = s then 1 else 0)) (map fst dist)) \<and>
         (\<exists>full. probabilities \<lparr>num_qubits = 2, state = [1, 0, 0, 0]\<rparr> None = Inr full \<and>
            (\<forall>key p'. (key, p') \<in> set full \<and> p' \<noteq> 0 \<longrightarrow>
               map (\<lambda>q. key ! q)
                 (measured_axes
                    (num_qubits \<lparr>num_qubits = 2,
                       state = [1 / complex_of_real (sqrt 2), 0, 0, 1 / complex_of_real (sqrt 2)]\<rparr>)
                    [0]) = s))))"
  by (intro conjI bell_wf rng_first_contract measure_bell_first bell_probabilities_0
      plain_probabilities_0 plain_probabilities_all
      measure_round_trip [OF bell_wf rng_first_contract normalise_2_0 measure_bell_first])

section \<open>The unit-norm invariant\<close>

lemma gate_norm:
  assumes "wf_circuit c" and "norm_sq (state c) = 1" and "is_unitary (2 ^ length qs) (data u)"
    and "apply_unitary c u qs = Inr c'"
  shows "wf_circuit c' \<and> norm_sq (state c') = 1"
  using apply_unitary_norm [OF assms(1,3,4)] assms(2) by simp

text \<open>
  Claim C5 (unit norm). A register built with a positive qubit count starts in the basis
  state of index 0, of norm 1. From a register of norm 1, a custom gate with a unitary
  matrix and each named gate return a register of norm 1, and a measurement leaves a
  register of norm 1 whenever the outcome it collapses onto had positive probability: the
  collapse divides the surviving amplitudes by their norm. A probability query returns
  a distribution only and assigns nothing to the register.
\<close>

theorem unit_norm_invariant:
  "(0 < n \<longrightarrow>
      (\<exists>c0. init n = Inr c0 \<and> state c0 = (replicate (2 ^ nat n) 0)[0 := 1] \<and>
         wf_circuit c0 \<and> norm_sq (state c0) = 1)) \<and>
   (wf_circuit c \<and> norm_sq (state c) = 1 \<longrightarrow>
      (is_unitary (2 ^ length qs) (data u) \<and> apply_custom c u qs = Inr c1 \<longrightarrow>
         wf_circuit c1 \<and> norm_sq (state c1) = 1) \<and>
      (hadamard c q = Inr c2 \<longrightarrow> wf_circuit c2 \<and> norm_sq (state c2) = 1) \<and>
      (pauli_x c q = Inr c3 \<longrightarrow> wf_circuit c3 \<and> norm_sq (state c3) = 1) \<and>
      (cnot c q1 q2 = Inr c4 \<longrightarrow> wf_circuit c4 \<and> norm_sq (state c4) = 1)) \<and>
   (wf_circuit c \<and> rng_contract rng \<and> normalise_qubits c qubits = Inr qt \<and>
    measure_qubits c qubits shots rng = Inr (res, c5) \<longrightarrow>
      (\<exists>dist s p. probabilities c (Some (map int qt)) = Inr dist \<and> (s, p) \<in> set dist \<and>
         collapse_state c qt s = Inr c5 \<and>
         (0 < p \<longrightarrow> wf_circuit c5 \<and> norm_sq (state c5) = 1)))"
proof (intro conjI impI)
  show "\<exists>c0. init n = Inr c0 \<and> state c0 = (replicate (2 ^ nat n) 0)[0 := 1] \<and>
      wf_circuit c0 \<and> norm_sq (state c0) = 1" if "0 < n"
    using that by (rule init_norm)
next
  assume a: "wf_circuit c \<and> norm_sq (state c) = 1"
  then have wf: "wf_circuit c" and unit: "norm_sq (state c) = 1"
    by simp_all
  show "wf_circuit c1" "norm_sq (state c1) = 1"
    if "is_unitary (2 ^ length qs) (data u) \<and> apply_custom c u qs = Inr c1"
    using gate_norm [OF wf unit, of qs u c1] that by (simp_all add: apply_custom_def)
  show "wf_circuit c2" "norm_sq (state c2) = 1" if "hadamard c q = Inr c2"
    using gate_norm [OF wf unit, of "[q]" H_gate c2] that H_gate_unitary
    by (simp_all add: hadamard_def)
  show "wf_circuit c3" "norm_sq (state c3) = 1" if "pauli_x c q = Inr c3"
    using gate_norm [OF wf unit, of "[q]" X_gate c3] that X_gate_unitary
    by (simp_all add: pauli_x_def)
  show "wf_circuit c4" "norm_sq (state c4) = 1" if "cnot c q1 q2 = Inr c4"
    using gate_norm [OF wf unit, of "[q1, q2]" CNOT_gate c4] that CNOT_gate_unitary
    by (simp_all add: cnot_def split: if_splits)
next
  assume a: "wf_circuit c \<and> rng_contract rng \<and> normalise_qubits c qubits = Inr qt \<and>
    measure_qubits c qubits shots rng = Inr (res, c5)"
  then have wf: "wf_circuit c" and g: "rng_contract rng"
    and q: "normalise_qubits c qubits = Inr qt"
    and m: "measure_qubits c qubits shots rng = Inr (res, c5)"
    by simp_all
  let ?n = "num_qubits c"
  define M where "M = measured_axes ?n qt"
  have v: "valid_qubits ?n qt"
    using q by (rule normalise_Inr_valid)
  obtain r where r: "r < 2 ^ length M" and c5: "collapse_state c qt (format_b (length M) r) = Inr c5"
    using measure_outcome [OF wf g q m] unfolding M_def by blast
  obtain dist where d: "probabilities c (Some (map int qt)) = Inr dist"
    and mem: "(format_b (length M) r, marginal_at ?n M (state c) r) \<in> set dist"
    using measured_dist_mem [OF wf v] r unfolding M_def by blast
  have "wf_circuit c5 \<and> norm_sq (state c5) = 1" if pos: "0 < marginal_at ?n M (state c) r"
    using post_collapse_distributions(1,2) [OF wf v, folded M_def, OF r pos c5] by simp
  then show "\<exists>dist s p. probabilities c (Some (map int qt)) = Inr dist \<and> (s, p) \<in> set dist \<and>
      collapse_state c qt s = Inr c5 \<and> (0 < p \<longrightarrow> wf_circuit c5 \<and> norm_sq (state c5) = 1)"
    using d mem c5 by blast
qed

lemma plain_wf: "wf_circuit \<lparr>num_qubits = 2, state = [1, 0, 0, 0]\<rparr>"
  by (simp add: wf_circuit_def)

lemma plain_norm: "norm_sq (state \<lparr>num_qubits = 2, state = [1, 0, 0, 0]\<rparr>) = 1"
  by (simp add: norm_sq_def)

lemma pauli_x_2_0:
  "pauli_x \<lparr>num_qubits = 2, state = [1, 0, 0, 0]\<rparr> 0 = Inr \<lparr>num_qubits = 2, state = [0, 0, 1, 0]\<rparr>"
  by (simp add: pauli_x_def X_gate_def apply_unitary_2_0)

lemma apply_custom_X_2_0:
  "apply_custom \<lparr>num_qubits = 2, state = [1, 0, 0, 0]\<rparr> X_gate [0] =
   Inr \<lparr>num_qubits = 2, state = [0, 0, 1, 0]\<rparr>"
  by (simp add: apply_custom_def X_gate_def apply_unitary_2_0)

lemma cnot_plain:
  "cnot \<lparr>num_qubits = 2, state = [1, 0, 0, 0]\<rparr> 0 1 = Inr \<lparr>num_qubits = 2, state = [1, 0, 0, 0]\<rparr>"
  by (rule cnot_2_01)

lemma X_unitary_1: "is_unitary (2 ^ length [0::int]) (data X_gate)"
  using X_gate_unitary by simp

lemma measure_plain_first:
  "measure_qubits \<lparr>num_qubits = 2, state = [1, 0, 0, 0]\<rparr> (Some [0]) 1 rng_first =
   Inr (\<lparr>counts = [(''0'', 1), (''1'', 0)]\<rparr>, \<lparr>num_qubits = 2, state = [1, 0, 0, 0]\<rparr>)"
  by (simp add: measure_qubits_def normalise_qubits_def probabilities_def Let_def
      distribution_from_probabilities_def permutation_of_def np_transpose_def source_index_def
      small_eval format_b_def bin_digits.simps dict_of_items_def bit_char_def isclose_def
      rng_first_def bump_def collapse_state_def int_base2_def char_bit_def argsort_def)

theorem unit_norm_invariant_witness:
  "(\<exists>c0. init 1 = Inr c0 \<and> state c0 = (replicate (2 ^ nat 1) 0)[0 := 1] \<and>
      wf_circuit c0 \<and> norm_sq (state c0) = 1) \<and>
   wf_circuit \<lparr>num_qubits = 2, state = [1, 0, 0, 0]\<rparr> \<and>
   norm_sq (state \<lparr>num_qubits = 2, state = [1, 0, 0, 0]\<rparr>) = 1 \<and>
   is_unitary (2 ^ length [0::int]) (data X_gate) \<and>
   apply_custom \<lparr>num_qubits = 2, state = [1, 0, 0, 0]\<rparr> X_gate [0] =
     Inr \<lparr>num_qubits = 2, state = [0, 0, 1, 0]\<rparr> \<and>
   norm_sq (state \<lparr>num_qubits = 2, state = [0, 0, 1, 0]\<rparr>) = 1 \<and>
   hadamard \<lparr>num_qubits = 2, state = [1, 0, 0, 0]\<rparr> 0 =
     Inr \<lparr>num_qubits = 2,
          state = [1 / complex_of_real (sqrt 2), 0, 1 / complex_of_real (sqrt 2), 0]\<rparr> \<and>
   norm_sq (state \<lparr>num_qubits = 2,
          state = [1 / complex_of_real (sqrt 2), 0, 1 / complex_of_real (sqrt 2), 0]\<rparr>) = 1 \<and>
   pauli_x \<lparr>num_qubits = 2, state = [1, 0, 0, 0]\<rparr> 0 =
     Inr \<lparr>num_qubits = 2, state = [0, 0, 1, 0]\<rparr> \<and>
   cnot \<lparr>num_qubits = 2, state = [1, 0, 0, 0]\<rparr> 0 1 =
     Inr \<lparr>num_qubits = 2, state = [1, 0, 0, 0]\<rparr> \<and>
   rng_contract rng_first \<and>
   measure_qubits \<lparr>num_qubits = 2, state = [1, 0, 0, 0]\<rparr> (Some [0]) 1 rng_first =
     Inr (\<lparr>counts = [(''0'', 1), (''1'', 0)]\<rparr>, \<lparr>num_qubits = 2, state = [1, 0, 0, 0]\<rparr>) \<and>
   (\<exists>dist s p.
      probabilities \<lparr>num_qubits = 2, state = [1, 0, 0, 0]\<rparr> (Some (map int [0])) = Inr dist \<and>
      (s, p) \<in> set dist \<and>
      collapse_state \<lparr>num_qubits = 2, state = [1, 0, 0, 0]\<rparr> [0] s =
        Inr \<lparr>num_qubits = 2, state = [1, 0, 0, 0]\<rparr> \<and>
      (0 < p \<longrightarrow> wf_circuit \<lparr>num_qubits = 2, state = [1, 0, 0, 0]\<rparr> \<and>
         norm_sq (state \<lparr>num_qubits = 2, state = [1, 0, 0, 0]\<rparr>) = 1))"
proof -
  note t = unit_norm_invariant [where n = 1 and c = "\<lparr>num_qubits = 2, state = [1, 0, 0, 0]\<rparr>"
      and qs = "[0]" and u = X_gate and ?c1.0 = "\<lparr>num_qubits = 2, state = [0, 0, 1, 0]\<rparr>"
      and q = 0
      and ?c2.0 = "\<lparr>num_qubits = 2,
            state = [1 / complex_of_real (sqrt 2), 0, 1 / complex_of_real (sqrt 2), 0]\<rparr>"
      and ?c3.0 = "\<lparr>num_qubits = 2, state = [0, 0, 1, 0]\<rparr>" and ?q1.0 = 0 and ?q2.0 = 1
      and ?c4.0 = "\<lparr>num_qubits = 2, state = [1, 0, 0, 0]\<rparr>" and rng = rng_first
      and qubits = "Some [0]" and qt = "[0]" and shots = 1
      and res = "\<lparr>counts = [(''0'', 1), (''1'', 0)]\<rparr>"
      and ?c5.0 = "\<lparr>num_qubits = 2, state = [1, 0, 0, 0]\<rparr>"]
  have a: "\<exists>c0. init 1 = Inr c0 \<and> state c0 = (replicate (2 ^ nat 1) 0)[0 := 1] \<and>
      wf_circuit c0 \<and> norm_sq (state c0) = 1"
    by (rule t [THEN conjunct1, THEN mp]) simp
  have gates: "norm_sq (state \<lparr>num_qubits = 2, state = [0, 0, 1, 0]\<rparr>) = 1"
    "norm_sq (state \<lparr>num_qubits = 2,
          state = [1 / complex_of_real (sqrt 2), 0, 1 / complex_of_real (sqrt 2), 0]\<rparr>) = 1"
    using t [THEN conjunct2, THEN conjunct1, THEN mp, OF conjI [OF plain_wf plain_norm]]
      X_unitary_1 apply_custom_X_2_0 hadamard_2_0
    by simp_all
  have m: "\<exists>dist s p.
      probabilities \<lparr>num_qubits = 2, state = [1, 0, 0, 0]\<rparr> (Some (map int [0])) = Inr dist \<and>
      (s, p) \<in> set dist \<and>
      collapse_state \<lparr>num_qubits = 2, state = [1, 0, 0, 0]\<rparr> [0] s =
        Inr \<lparr>num_qubits = 2, state = [1, 0, 0, 0]\<rparr> \<and>
      (0 < p \<longrightarrow> wf_circuit \<lparr>num_qubits = 2, state = [1, 0, 0, 0]\<rparr> \<and>
         norm_sq (state \<lparr>num_qubits = 2, state = [1, 0, 0, 0]\<rparr>) = 1)"
    by (rule t [THEN conjunct2, THEN conjunct2, THEN mp])
      (intro conjI plain_wf rng_first_contract normalise_2_0 measure_plain_first)
  show ?thesis
    by (intro conjI a plain_wf plain_norm X_unitary_1 apply_custom_X_2_0 gates hadamard_2_0
        pauli_x_2_0 cnot_plain rng_first_contract measure_plain_first m)
qed

section \<open>Most likely outcome\<close>

text \<open>
  Claim C8 (ties of the most likely outcome). On the counts \<open>{"0": 1, "1": 1}\<close> both
  bit strings tie for the highest count; the code returns \<open>"1"\<close>, the lexicographically
  largest of them, where its docstring promises the smallest.
\<close>

theorem most_likely_tie_returns_largest:
  "most_likely \<lparr>counts = [(''0'', 1), (''1'', 1)]\<rparr> = Inr ''1''"
  by (simp add: most_likely_def item_key_less_def)

section \<open>The Bell state\<close>

text \<open>
  Claim C9 (Bell state). On a fresh register of two qubits, Hadamard on qubit 0 and then
  CNOT with control 0 and target 1 give the full-register distribution
  \<open>{"00": 1/2, "01": 0, "10": 0, "11": 1/2}\<close>, exactly.
\<close>

theorem bell_state_probabilities:
  "\<exists>c0 c1 c2. init 2 = Inr c0 \<and> hadamard c0 0 = Inr c1 \<and> cnot c1 0 1 = Inr c2 \<and>
     probabilities c2 None = Inr [(''00'', 1 / 2), (''01'', 0), (''10'', 0), (''11'', 1 / 2)]"
  by (simp add: init_2 hadamard_2_0 cnot_2_01 probabilities_2_all norm_divide power_divide)

section \<open>Collapse on an outcome of probability zero\<close>

text \<open>
  Claim C7, as stated, fails: in the state \<open>|0\<rangle>\<close> of one qubit the outcome \<open>"1"\<close> has
  probability zero, and collapsing onto it returns normally with the all-zero vector.
\<close>

theorem collapse_zero_probability_returns:
  "probabilities \<lparr>num_qubits = 1, state = [1, 0]\<rparr> (Some [0]) = Inr [(''0'', 1), (''1'', 0)] \<and>
   collapse_state \<lparr>num_qubits = 1, state = [1, 0]\<rparr> [0] ''1'' =
     Inr \<lparr>num_qubits = 1, state = [0, 0]\<rparr> \<and>
   \<not> isl (collapse_state \<lparr>num_qubits = 1, state = [1, 0]\<rparr> [0] ''1'')"
  using probabilities_1_0 [of 1 0] collapse_state_1_0_one by simp

text \<open>
  Claim C7, amended. On a non-empty tuple of distinct in-range qubits, a collapse onto an
  outcome of probability exactly zero does not fail: it returns, and the amplitude
  vector it leaves is zero everywhere.
\<close>

theorem collapse_zero_probability_all_zero:
  assumes "wf_circuit c" and "valid_qubits (num_qubits c) qs" and "qs \<noteq> []"
    and "probabilities c (Some (map int qs)) = Inr ds" and "(s, 0) \<in> set ds"
  shows "collapse_state c qs s = Inr (c\<lparr>state := replicate (2 ^ num_qubits c) 0\<rparr>)"
proof -
  have "ds = map (\<lambda>r. (format_b (length qs) r, marginal_at (num_qubits c) qs (state c) r))
      [0..<2 ^ length qs]"
    using probabilities_marginal_at [OF assms(2,3)] assms(4) by simp
  then obtain r where r: "r < 2 ^ length qs" and s: "s = format_b (length qs) r"
    and z: "marginal_at (num_qubits c) qs (state c) r = 0"
    using assms(5) by auto
  show ?thesis
    unfolding s using assms(2,3) r z by (rule collapse_state_zero)
qed

lemma zero_wf: "wf_circuit \<lparr>num_qubits = 1, state = [1, 0]\<rparr>"
  by (simp add: wf_circuit_def)

lemma zero_valid: "valid_qubits (num_qubits \<lparr>num_qubits = 1, state = [1, 0]\<rparr>) [0]"
  by (simp add: valid_qubits_def)

lemma zero_probabilities:
  "probabilities \<lparr>num_qubits = 1, state = [1, 0]\<rparr> (Some (map int [0])) =
   Inr [(''0'', 1), (''1'', 0)]"
  using probabilities_1_0 [of 1 0] by simp

theorem collapse_zero_probability_all_zero_witness:
  "wf_circuit \<lparr>num_qubits = 1, state = [1, 0]\<rparr> \<and>
   valid_qubits (num_qubits \<lparr>num_qubits = 1, state = [1, 0]\<rparr>) [0] \<and>
   probabilities \<lparr>num_qubits = 1, state = [1, 0]\<rparr> (Some (map int [0])) =
     Inr [(''0'', 1), (''1'', 0)] \<and>
   collapse_state \<lparr>num_qubits = 1, state = [1, 0]\<rparr> [0] ''1'' =
     Inr \<lparr>num_qubits = 1, state = [0, 0]\<rparr>"
proof -
  have "collapse_state \<lparr>num_qubits = 1, state = [1, 0]\<rparr> [0] ''1'' =
      Inr (\<lparr>num_qubits = 1, state = [1, 0]\<rparr>
             \<lparr>state := replicate (2 ^ num_qubits \<lparr>num_qubits = 1, state = [1, 0]\<rparr>) 0\<rparr>)"
    by (rule collapse_zero_probability_all_zero [OF zero_wf zero_valid _ zero_probabilities])
      simp_all
  then have "collapse_state \<lparr>num_qubits = 1, state = [1, 0]\<rparr> [0] ''1'' =
      Inr \<lparr>num_qubits = 1, state = [0, 0]\<rparr>"
    by (simp add: numeral_2_eq_2)
  then show ?thesis
    by (intro conjI zero_wf zero_valid zero_probabilities)
qed

section \<open>The empty qubit list\<close>

text \<open>
  Claim C10 (empty qubit list). An empty list is accepted. \<^verbatim>\<open>probabilities([])\<close> is the
  full-register distribution keyed by the \<open>n\<close>-character bit strings. Whenever
  \<^verbatim>\<open>measure([], shots, rng)\<close> returns, the register is left in one basis state \<open>r\<close> that
  was drawn, with amplitude exactly 1 there and 0 elsewhere, whatever the amplitudes
  were; on a register of unit norm it does return, the generator having been asked for
  indices with the full-register probabilities, and the basis state is the last draw.
\<close>

theorem empty_qubit_list_is_full_register:
  assumes "wf_circuit c"
  shows "normalise_qubits c (Some []) = Inr [] \<and>
         probabilities c (Some []) =
           Inr (map (\<lambda>i. (format_b (num_qubits c) i, (cmod (state c ! i))\<^sup>2))
                    [0..<2 ^ num_qubits c]) \<and>
         (rng_contract rng \<and> norm_sq (state c) = 1 \<and> 0 < shots \<longrightarrow>
            (\<exists>outs res.
               rng (2 ^ num_qubits c) (nat shots)
                 (map (\<lambda>i. (cmod (state c ! i))\<^sup>2) [0..<2 ^ num_qubits c]) = Inr outs \<and>
               last outs < 2 ^ num_qubits c \<and>
               measure_qubits c (Some []) shots rng =
                 Inr (res, c\<lparr>state := (replicate (2 ^ num_qubits c) 0)[last outs := 1]\<rparr>) \<and>
               map fst (counts res) = map (format_b (num_qubits c)) [0..<2 ^ num_qubits c] \<and>
               total_shots res = shots)) \<and>
         (rng_contract rng \<and> measure_qubits c (Some []) shots rng = Inr (res', c') \<longrightarrow>
            (\<exists>r<2 ^ num_qubits c.
               c' = c\<lparr>state := (replicate (2 ^ num_qubits c) 0)[r := 1]\<rparr> \<and>
               (\<exists>cnt. (format_b (num_qubits c) r, cnt) \<in> set (counts res') \<and> 0 < cnt)))"
proof (intro conjI impI)
  let ?n = "num_qubits c"
  have q: "normalise_qubits c (Some []) = Inr []"
    by (simp add: normalise_qubits_def)
  have M: "measured_axes ?n [] = [0..<?n]"
    by (simp add: measured_axes_def)
  have n: "0 < ?n"
    using assms by (simp add: wf_circuit_def)
  show "normalise_qubits c (Some []) = Inr []"
    by (rule q)
  show "probabilities c (Some []) =
      Inr (map (\<lambda>i. (format_b ?n i, (cmod (state c ! i))\<^sup>2)) [0..<2 ^ ?n])"
    using assms by (rule probabilities_empty)
  show "\<exists>outs res.
      rng (2 ^ ?n) (nat shots) (map (\<lambda>i. (cmod (state c ! i))\<^sup>2) [0..<2 ^ ?n]) = Inr outs \<and>
      last outs < 2 ^ ?n \<and>
      measure_qubits c (Some []) shots rng =
        Inr (res, c\<lparr>state := (replicate (2 ^ ?n) 0)[last outs := 1]\<rparr>) \<and>
      map fst (counts res) = map (format_b ?n) [0..<2 ^ ?n] \<and>
      total_shots res = shots"
    if a: "rng_contract rng \<and> norm_sq (state c) = 1 \<and> 0 < shots"
  proof -
    define keys where "keys = map (format_b ?n) [0..<2 ^ ?n]"
    have g: "rng_contract rng" and unit: "norm_sq (state c) = 1" and shots: "0 < shots"
      using a by simp_all
    obtain outs c'' where
      r: "rng (2 ^ ?n) (nat shots) (map (marginal_at ?n [0..<?n] (state c)) [0..<2 ^ ?n]) = Inr outs"
      and lo: "length outs = nat shots" and lt: "\<forall>x \<in> set outs. x < 2 ^ ?n"
      and c'': "collapse_state c [] (format_b ?n (last outs)) = Inr c''"
      and m: "measure_qubits c (Some []) shots rng =
        Inr (\<lparr>counts = map (\<lambda>k. (k, int (count_list (map (\<lambda>x. keys ! x) outs) k))) keys\<rparr>, c'')"
      using measure_unit_norm [OF assms unit g q shots] unfolding M keys_def by auto
    have "outs \<noteq> []"
      using lo shots by auto
    then have last: "last outs < 2 ^ ?n"
      using lt by simp
    have p: "map (marginal_at ?n [0..<?n] (state c)) [0..<2 ^ ?n] =
        map (\<lambda>i. (cmod (state c ! i))\<^sup>2) [0..<2 ^ ?n]"
      by (rule map_cong [OF refl]) (simp add: marginal_at_all)
    have e: "c'' = c\<lparr>state := (replicate (2 ^ ?n) 0)[last outs := 1]\<rparr>"
      using collapse_state_empty [OF assms last] c'' by simp
    have dk: "distinct keys"
      unfolding keys_def using n by (rule distinct_format_b)
    have lk: "\<forall>x \<in> set outs. x < length keys"
      using lt by (simp add: keys_def)
    let ?res = "\<lparr>counts = map (\<lambda>k. (k, int (count_list (map (\<lambda>x. keys ! x) outs) k))) keys\<rparr>"
    have ts: "total_shots ?res = shots"
      using total_shots_tally [OF dk lk] lo shots by simp
    have kf: "map fst (counts ?res) = map (format_b ?n) [0..<2 ^ ?n]"
      by (simp add: o_def keys_def)
    show ?thesis
      using r last m ts kf unfolding p e by blast
  qed
  show "\<exists>r<2 ^ ?n. c' = c\<lparr>state := (replicate (2 ^ ?n) 0)[r := 1]\<rparr> \<and>
      (\<exists>cnt. (format_b ?n r, cnt) \<in> set (counts res') \<and> 0 < cnt)"
    if a: "rng_contract rng \<and> measure_qubits c (Some []) shots rng = Inr (res', c')"
  proof -
    have g: "rng_contract rng" and m: "measure_qubits c (Some []) shots rng = Inr (res', c')"
      using a by simp_all
    obtain r where r: "r < 2 ^ ?n" and c': "collapse_state c [] (format_b ?n r) = Inr c'"
      and cnt: "\<exists>cnt. (format_b ?n r, cnt) \<in> set (counts res') \<and> 0 < cnt"
      using measure_outcome [OF assms g q m] unfolding M by auto
    have "c' = c\<lparr>state := (replicate (2 ^ ?n) 0)[r := 1]\<rparr>"
      using collapse_state_empty [OF assms r] c' by simp
    then show ?thesis
      using r cnt by blast
  qed
qed

lemma phase_wf: "wf_circuit \<lparr>num_qubits = 1, state = [\<i>, 0]\<rparr>"
  by (simp add: wf_circuit_def)

lemma format_b_1: "format_b (Suc 0) 0 = ''0''" "format_b (Suc 0) (Suc 0) = ''1''"
  by (simp_all add: format_b_def bin_digits.simps bit_char_def)

lemma measure_phase_empty:
  "measure_qubits \<lparr>num_qubits = 1, state = [\<i>, 0]\<rparr> (Some []) 1 rng_first =
   Inr (\<lparr>counts = [(''0'', 1), (''1'', 0)]\<rparr>, \<lparr>num_qubits = 1, state = [1, 0]\<rparr>)"
  by (simp add: measure_qubits_def normalise_qubits_def probabilities_def Let_def
      small_eval format_b_1 dict_of_items_def isclose_def
      rng_first_def bump_def collapse_state_def int_base2_def char_bit_def)

lemma measure_phase_qubit:
  "measure_qubits \<lparr>num_qubits = 1, state = [\<i>, 0]\<rparr> (Some [0]) 1 rng_first =
   Inr (\<lparr>counts = [(''0'', 1), (''1'', 0)]\<rparr>, \<lparr>num_qubits = 1, state = [\<i>, 0]\<rparr>)"
  by (simp add: measure_qubits_def normalise_qubits_def probabilities_def Let_def
      distribution_from_probabilities_def permutation_of_def np_transpose_def source_index_def
      small_eval format_b_def bin_digits.simps dict_of_items_def bit_char_def isclose_def
      rng_first_def bump_def collapse_state_def int_base2_def char_bit_def argsort_def)

theorem empty_qubit_list_is_full_register_witness:
  "wf_circuit \<lparr>num_qubits = 1, state = [\<i>, 0]\<rparr> \<and>
   rng_contract rng_first \<and>
   normalise_qubits \<lparr>num_qubits = 1, state = [\<i>, 0]\<rparr> (Some []) = Inr [] \<and>
   probabilities \<lparr>num_qubits = 1, state = [\<i>, 0]\<rparr> (Some []) =
     Inr (map (\<lambda>i. (format_b (num_qubits \<lparr>num_qubits = 1, state = [\<i>, 0]\<rparr>) i,
                      (cmod (state \<lparr>num_qubits = 1, state = [\<i>, 0]\<rparr> ! i))\<^sup>2))
              [0..<2 ^ num_qubits \<lparr>num_qubits = 1, state = [\<i>, 0]\<rparr>]) \<and>
   measure_qubits \<lparr>num_qubits = 1, state = [\<i>, 0]\<rparr> (Some []) 1 rng_first =
     Inr (\<lparr>counts = [(''0'', 1), (''1'', 0)]\<rparr>, \<lparr>num_qubits = 1, state = [1, 0]\<rparr>) \<and>
   measure_qubits \<lparr>num_qubits = 1, state = [\<i>, 0]\<rparr> (Some [0]) 1 rng_first =
     Inr (\<lparr>counts = [(''0'', 1), (''1'', 0)]\<rparr>, \<lparr>num_qubits = 1, state = [\<i>, 0]\<rparr>) \<and>
   (\<exists>r<2 ^ num_qubits \<lparr>num_qubits = 1, state = [\<i>, 0]\<rparr>.
      \<lparr>num_qubits = 1, state = [1, 0]\<rparr> =
        \<lparr>num_qubits = 1, state = [\<i>, 0]\<rparr>
          \<lparr>state := (replicate (2 ^ num_qubits \<lparr>num_qubits = 1, state = [\<i>, 0]\<rparr>) 0)[r := 1]\<rparr> \<and>
      (\<exists>cnt. (format_b (num_qubits \<lparr>num_qubits = 1, state = [\<i>, 0]\<rparr>) r, cnt)
               \<in> set (counts \<lparr>counts = [(''0'', 1), (''1'', 0)]\<rparr>) \<and> 0 < cnt))"
proof -
  note t = empty_qubit_list_is_full_register [OF phase_wf, where rng = rng_first and shots = 1
      and res' = "\<lparr>counts = [(''0'', 1), (''1'', 0)]\<rparr>"
      and c' = "\<lparr>num_qubits = 1, state = [1, 0]\<rparr>"]
  show ?thesis
    by (intro conjI phase_wf rng_first_contract t [THEN conjunct1]
        t [THEN conjunct2, THEN conjunct1] measure_phase_empty measure_phase_qubit
        t [THEN conjunct2, THEN conjunct2, THEN conjunct2, THEN mp,
           OF conjI [OF rng_first_contract measure_phase_empty]])
qed

end
